theory Spec2Isabelle
  imports Main "HOL-Library.Word"
begin

section \<open>Data model\<close>

text \<open>
  \<^verbatim>\<open>vec.h\<close> keeps a vector in one heap block: a header of three \<^verbatim>\<open>size_t\<close> fields
  (capacity, length, item size) followed by the item bytes. The user's pointer points
  at the first item byte. The embedding keeps the three header fields as 64-bit words
  (\<^verbatim>\<open>size_t\<close> on an LP64 platform, so \<^verbatim>\<open>sizeof(size_t) * 3 = 24\<close>) and the bytes
  behind the header as a list whose length is the size of the block minus the header.
\<close>

type_synonym byte = "8 word"
type_synonym size_t = "64 word"

record vec =
  hdr_cap :: size_t
  hdr_len :: size_t
  hdr_item_size :: size_t
  mem :: "byte list"

text \<open>
  What ends an operation other than a normal return:
  \<^item> \<open>Sigsegv\<close>: \<^verbatim>\<open>raise(SIGSEGV)\<close> after the allocator returned \<^verbatim>\<open>NULL\<close>; with the default
    signal disposition the process ends there. The argument is the vector's block as it
    is at that moment (\<open>None\<close> when no vector exists yet).
  \<^item> \<open>Overrun\<close>: a pointer or an access outside the allocated block, which C leaves
    undefined. The argument is the vector at the offending access (\<open>None\<close> when the
    block is shorter than its own header).
  \<^item> \<open>SignedOverflow\<close>: overflow in signed \<^verbatim>\<open>int\<close>/\<^verbatim>\<open>long\<close> arithmetic on a macro
    argument, undefined in C as well.
\<close>

datatype fault = Sigsegv "vec option" | Overrun "vec option" | SignedOverflow

type_synonym outcome = "fault + vec"

text \<open>
  The injected primitives \<^verbatim>\<open>VEC_MALLOC\<close> and \<^verbatim>\<open>VEC_REALLOC\<close>: \<open>avail n\<close> tells whether
  a request for \<open>n\<close> bytes is granted, \<open>junk i\<close> is the indeterminate content of byte
  \<open>i\<close> of memory that the allocator hands out fresh.
\<close>

record allocator =
  avail :: "nat \<Rightarrow> bool"
  junk :: "nat \<Rightarrow> byte"

definition VEC_MAX_PREALLOC :: size_t where
  "VEC_MAX_PREALLOC = 1024 * 1024"

definition hdr_bytes :: size_t where
  "hdr_bytes = 8 * 3"

definition vec_total_size :: "vec \<Rightarrow> size_t" where
  "vec_total_size v = hdr_bytes + hdr_cap v * hdr_item_size v"

subsection \<open>Arguments of the macros\<close>

text \<open>
  \<^verbatim>\<open>vec_insert\<close> and \<^verbatim>\<open>vec_reserve\<close> are macros, so their index and size arguments
  have whatever integer type the caller wrote. The cases kept here are \<^verbatim>\<open>int\<close> (what a
  literal such as \<^verbatim>\<open>-1\<close> is), \<^verbatim>\<open>long\<close> and \<^verbatim>\<open>size_t\<close>, on LP64. A \<open>carg\<close> is
  the value of an operand together with its type.
\<close>

datatype carg = CInt "32 word" | CLong "64 word" | CSizeT "64 word"

fun cval :: "carg \<Rightarrow> int" where
  "cval (CInt w) = sint w"
| "cval (CLong w) = sint w"
| "cval (CSizeT w) = uint w"

text \<open>Conversion to \<^verbatim>\<open>size_t\<close>: the value modulo \<open>2 ^ 64\<close>.\<close>

fun to_size_t :: "carg \<Rightarrow> size_t" where
  "to_size_t (CInt w) = scast w"
| "to_size_t (CLong w) = w"
| "to_size_t (CSizeT w) = w"

text \<open>
  \<^verbatim>\<open>(size_t) x == x\<close>. One operand has type \<^verbatim>\<open>size_t\<close>, whose rank is at least that of
  the other operand's type, so the usual arithmetic conversions convert the other operand to
  \<^verbatim>\<open>size_t\<close> before the comparison.
\<close>

definition cast_roundtrip :: "carg \<Rightarrow> bool" where
  "cast_roundtrip x = (to_size_t (CSizeT (to_size_t x)) = to_size_t x)"

text \<open>\<^verbatim>\<open>x >= 0\<close>, compared in the type of \<open>x\<close> (the literal is an \<^verbatim>\<open>int\<close>).\<close>

fun ge_zero :: "carg \<Rightarrow> bool" where
  "ge_zero (CInt w) = (0 \<le> sint w)"
| "ge_zero (CLong w) = (0 \<le> sint w)"
| "ge_zero (CSizeT w) = True"

text \<open>\<^verbatim>\<open>x + 1\<close>, computed in the type of \<open>x\<close>; \<open>None\<close> on signed overflow.\<close>

fun plus_one :: "carg \<Rightarrow> carg option" where
  "plus_one (CInt w) = (if w = 0x7FFFFFFF then None else Some (CInt (w + 1)))"
| "plus_one (CLong w) = (if w = 0x7FFFFFFFFFFFFFFF then None else Some (CLong (w + 1)))"
| "plus_one (CSizeT w) = Some (CSizeT (w + 1))"

text \<open>
  \<^verbatim>\<open>a + b\<close> under the usual arithmetic conversions: two \<^verbatim>\<open>int\<close>s add as \<^verbatim>\<open>int\<close>, an
  \<^verbatim>\<open>int\<close> and a \<^verbatim>\<open>long\<close> as \<^verbatim>\<open>long\<close>, anything and a \<^verbatim>\<open>size_t\<close> as \<^verbatim>\<open>size_t\<close>;
  \<open>None\<close> on signed overflow.
\<close>

fun cadd :: "carg \<Rightarrow> carg \<Rightarrow> carg option" where
  "cadd (CInt a) (CInt b) =
     (if - (2 ^ 31) \<le> sint a + sint b \<and> sint a + sint b < 2 ^ 31
      then Some (CInt (a + b)) else None)"
| "cadd (CInt a) (CLong b) =
     (if - (2 ^ 63) \<le> sint a + sint b \<and> sint a + sint b < 2 ^ 63
      then Some (CLong (scast a + b)) else None)"
| "cadd (CLong a) (CInt b) =
     (if - (2 ^ 63) \<le> sint a + sint b \<and> sint a + sint b < 2 ^ 63
      then Some (CLong (a + scast b)) else None)"
| "cadd (CLong a) (CLong b) =
     (if - (2 ^ 63) \<le> sint a + sint b \<and> sint a + sint b < 2 ^ 63
      then Some (CLong (a + b)) else None)"
| "cadd (CSizeT a) y = Some (CSizeT (a + to_size_t y))"
| "cadd x (CSizeT b) = Some (CSizeT (to_size_t x + b))"

text \<open>
  The macros paste the text of their index and size argument into their body without
  parentheses, so what a call does depends on how that text parses there, not only on its
  value. Two shapes of argument text are kept:
  \<^item> \<open>Atom x\<close>: text that every place of the body reads as one operand, namely a
    constant, an identifier, a unary or postfix expression or a parenthesised expression,
    free of side effects, with value \<open>x\<close>;
  \<^item> \<open>Sum a b\<close>: the text \<^verbatim>\<open>a + b\<close> of two such operands.
  Text whose outermost operator is another one (a subtraction, a shift, a conditional) is
  not represented. The vector argument is taken to be an identifier, as in the header's own
  description of the macros.
\<close>

datatype marg = Atom carg | Sum carg carg

text \<open>The value of the argument text read as an expression of its own.\<close>

fun mval :: "marg \<Rightarrow> carg option" where
  "mval (Atom x) = Some x"
| "mval (Sum a b) = cadd a b"

subsection \<open>Memory primitives\<close>

text \<open>Offsets are relative to the user's pointer, the first byte after the header.\<close>

definition mem_read :: "byte list \<Rightarrow> nat \<Rightarrow> nat \<Rightarrow> byte list option" where
  "mem_read m off n = (if off + n \<le> length m then Some (take n (drop off m)) else None)"

definition mem_write :: "byte list \<Rightarrow> nat \<Rightarrow> byte list \<Rightarrow> byte list option" where
  "mem_write m off bs =
     (if off + length bs \<le> length m
      then Some (take off m @ bs @ drop (off + length bs) m) else None)"

definition memmove :: "byte list \<Rightarrow> nat \<Rightarrow> nat \<Rightarrow> nat \<Rightarrow> byte list option" where
  "memmove m dst src n =
     (case mem_read m src n of None \<Rightarrow> None | Some bs \<Rightarrow> mem_write m dst bs)"

text \<open>
  The 24 header bytes as they lie in front of the items on a little-endian machine. They
  matter only where a source pointer of \<^verbatim>\<open>memmove\<close> lies before the first item.
\<close>

definition le64 :: "size_t \<Rightarrow> byte list" where
  "le64 w = map (\<lambda>i. ucast (drop_bit (8 * i) w)) [0..<8]"

definition hdr_image :: "vec \<Rightarrow> byte list" where
  "hdr_image v = le64 (hdr_cap v) @ le64 (hdr_len v) @ le64 (hdr_item_size v)"

text \<open>
  \<^verbatim>\<open>memmove\<close> with a source that may lie in the header: the destination is an offset from
  the first item, the source an offset that may be negative, down to the start of the block.
\<close>

definition memmove_from :: "vec \<Rightarrow> nat \<Rightarrow> int \<Rightarrow> nat \<Rightarrow> byte list option" where
  "memmove_from v dst src n =
     (if - 24 \<le> src \<and> src + int n \<le> int (length (mem v)) \<and> dst + n \<le> length (mem v)
      then Some (take dst (mem v)
                 @ take n (drop (nat (src + 24)) (hdr_image v @ mem v))
                 @ drop (dst + n) (mem v))
      else None)"

text \<open>The item in slot \<open>j\<close> of a block whose items are \<open>k\<close> bytes wide.\<close>

definition slot :: "nat \<Rightarrow> byte list \<Rightarrow> nat \<Rightarrow> byte list" where
  "slot k m j = take k (drop (j * k) m)"

text \<open>
  \<^verbatim>\<open>temp = VEC_REALLOC(_vec_hdr_addr(vec), total); if (temp == NULL) raise(SIGSEGV);
  vec = (char *) temp + sizeof(size_t) * 3\<close>: the bytes kept are those that fit the new
  size, the bytes gained are indeterminate.
\<close>

definition resize_block :: "allocator \<Rightarrow> vec \<Rightarrow> size_t \<Rightarrow> outcome" where
  "resize_block al v nbytes =
     (if \<not> avail al (unat nbytes) then Inl (Sigsegv (Some v))
      else if nbytes < hdr_bytes then Inl (Overrun None)
      else let n = unat nbytes - unat hdr_bytes in
        Inr (v\<lparr>mem := take n (mem v) @ map (junk al) [length (mem v)..<n]\<rparr>))"

section \<open>Functions\<close>

definition vec_newlen :: "allocator \<Rightarrow> size_t \<Rightarrow> size_t \<Rightarrow> outcome" where
  "vec_newlen al isz nitems =
     (let nbytes = hdr_bytes + isz * nitems in
      if \<not> avail al (unat nbytes) then Inl (Sigsegv None)
      else if nbytes < hdr_bytes then Inl (Overrun None)
      else
        let v = \<lparr>hdr_cap = nitems, hdr_len = 0, hdr_item_size = isz,
                 mem = map (junk al) [0..<unat nbytes - unat hdr_bytes]\<rparr> in
        case mem_write (mem v) 0 (replicate (unat (isz * nitems)) 0) of
          None \<Rightarrow> Inl (Overrun (Some v))
        | Some m \<Rightarrow> Inr (v\<lparr>mem := m\<rparr>))"

definition vec_new :: "allocator \<Rightarrow> size_t \<Rightarrow> outcome" where
  "vec_new al isz = vec_newlen al isz 1"

definition vec_newsize :: "allocator \<Rightarrow> size_t \<Rightarrow> size_t \<Rightarrow> outcome" where
  "vec_newsize al isz nitems = vec_newlen al isz nitems"

text \<open>
  \<^verbatim>\<open>vec_dup\<close> copies \<^verbatim>\<open>_vec_total_size(vec)\<close> bytes, header included, into a fresh block of
  that size.
\<close>

definition vec_dup :: "allocator \<Rightarrow> vec \<Rightarrow> outcome" where
  "vec_dup al v =
     (let nbytes = hdr_bytes + hdr_cap v * hdr_item_size v in
      if \<not> avail al (unat nbytes) then Inl (Sigsegv (Some v))
      else if nbytes < hdr_bytes then Inl (Overrun None)
      else case mem_read (mem v) 0 (unat (vec_total_size v) - unat hdr_bytes) of
          None \<Rightarrow> Inl (Overrun (Some v))
        | Some bs \<Rightarrow> Inr (v\<lparr>mem := bs\<rparr>))"

definition vec_cap :: "vec \<Rightarrow> size_t" where
  "vec_cap v = hdr_cap v"

definition vec_len :: "vec \<Rightarrow> size_t" where
  "vec_len v = hdr_len v"

definition vec_size :: "vec \<Rightarrow> size_t" where
  "vec_size v = hdr_len v"

definition vec_isempty :: "vec \<Rightarrow> bool" where
  "vec_isempty v = (if hdr_len v = 0 then True else False)"

definition vec_clear :: "vec \<Rightarrow> vec" where
  "vec_clear v = v\<lparr>hdr_len := 0\<rparr>"

definition vec_pop :: "vec \<Rightarrow> vec" where
  "vec_pop v = (if hdr_len v > 0 then v\<lparr>hdr_len := hdr_len v - 1\<rparr> else v)"

definition vec_remove :: "vec \<Rightarrow> size_t \<Rightarrow> outcome" where
  "vec_remove v index =
     (if hdr_len v > 0 \<and> index < hdr_len v then
        case memmove (mem v)
               (unat (index * hdr_item_size v))
               (unat ((index + 1) * hdr_item_size v))
               (unat (hdr_item_size v * (hdr_len v - (index + 1)))) of
          None \<Rightarrow> Inl (Overrun (Some v))
        | Some m \<Rightarrow> Inr (v\<lparr>mem := m, hdr_len := hdr_len v - 1\<rparr>)
      else Inr v)"

subsection \<open>Macros\<close>

text \<open>The capacity chosen by the growth block of \<^verbatim>\<open>vec_push\<close> and \<^verbatim>\<open>vec_insert\<close>.\<close>

definition new_cap :: "vec \<Rightarrow> size_t" where
  "new_cap v = (if hdr_cap v \<le> VEC_MAX_PREALLOC then hdr_cap v * 2 else hdr_cap v + 1)"

definition new_total_size :: "vec \<Rightarrow> size_t" where
  "new_total_size v = hdr_bytes + new_cap v * hdr_item_size v"

text \<open>
  The block \<^verbatim>\<open>if (_vec_hdr_len(vec) == _vec_hdr_cap(vec)) { ... }\<close>, which the two macros
  repeat word for word.
\<close>

definition vec_grow :: "allocator \<Rightarrow> vec \<Rightarrow> outcome" where
  "vec_grow al v =
     (if hdr_len v = hdr_cap v then
        case resize_block al v (new_total_size v) of
          Inl f \<Rightarrow> Inl f
        | Inr v' \<Rightarrow> Inr (v'\<lparr>hdr_cap := new_cap v\<rparr>)
      else Inr v)"

text \<open>
  \<^verbatim>\<open>vec[i] = item\<close>: \<open>vec\<close> has the caller's pointer type, so the store is as wide as the
  item (\<open>length item\<close> bytes) and lands \<open>i\<close> items of that width behind the pointer.
\<close>

definition store_item :: "vec \<Rightarrow> nat \<Rightarrow> byte list \<Rightarrow> outcome" where
  "store_item v i item =
     (case mem_write (mem v) (i * length item) item of
        None \<Rightarrow> Inl (Overrun (Some v))
      | Some m \<Rightarrow> Inr (v\<lparr>mem := m\<rparr>))"

definition vec_push :: "allocator \<Rightarrow> vec \<Rightarrow> byte list \<Rightarrow> outcome" where
  "vec_push al v item =
     (case vec_grow al v of
        Inl f \<Rightarrow> Inl f
      | Inr v1 \<Rightarrow>
          let v2 = v1\<lparr>hdr_len := hdr_len v1 + 1\<rparr> in
          store_item v2 (unat (hdr_len v2 - 1)) item)"

text \<open>
  \<^verbatim>\<open>vec_insert(vec, item, index)\<close>. With the index text \<^verbatim>\<open>a + b\<close> the body reads
  \<^verbatim>\<open>(size_t) a + b == a + b && a + b >= 0 && a + b <= len\<close> for the guard,
  \<^verbatim>\<open>(char *) vec + (a + b + 1) * item_size\<close> for the destination,
  \<^verbatim>\<open>(char *) vec + a + b * item_size\<close> for the source,
  \<^verbatim>\<open>item_size * ((len - 1) - a + b)\<close> for the byte count and \<^verbatim>\<open>vec[a + b]\<close> for the
  store. The source is reached in two pointer steps, first by \<open>a\<close>, then by
  \<^verbatim>\<open>b * item_size\<close>, and each step has to stay inside the block.
\<close>

fun vec_insert :: "allocator \<Rightarrow> vec \<Rightarrow> byte list \<Rightarrow> marg \<Rightarrow> outcome" where
  "vec_insert al v item (Atom index) =
     (if cast_roundtrip index \<and> ge_zero index \<and> to_size_t index \<le> hdr_len v then
        (case vec_grow al v of
           Inl f \<Rightarrow> Inl f
         | Inr v1 \<Rightarrow>
            (let v2 = v1\<lparr>hdr_len := hdr_len v1 + 1\<rparr> in
             (case plus_one index of
                None \<Rightarrow> Inl SignedOverflow
              | Some index1 \<Rightarrow>
                 (case memmove (mem v2)
                         (unat (to_size_t index1 * hdr_item_size v2))
                         (unat (to_size_t index * hdr_item_size v2))
                         (unat (hdr_item_size v2 * ((hdr_len v2 - 1) - to_size_t index))) of
                    None \<Rightarrow> Inl (Overrun (Some v2))
                  | Some m \<Rightarrow> store_item (v2\<lparr>mem := m\<rparr>) (nat (cval index)) item))))
      else Inr v)"
| "vec_insert al v item (Sum a b) =
     (case cadd a b of
        None \<Rightarrow> Inl SignedOverflow
      | Some s \<Rightarrow>
         (if to_size_t a + to_size_t b = to_size_t s \<and> ge_zero s \<and> to_size_t s \<le> hdr_len v then
            (case vec_grow al v of
               Inl f \<Rightarrow> Inl f
             | Inr v1 \<Rightarrow>
                (let v2 = v1\<lparr>hdr_len := hdr_len v1 + 1\<rparr> in
                 (case plus_one s of
                    None \<Rightarrow> Inl SignedOverflow
                  | Some s1 \<Rightarrow>
                     (if cval a < - 24 \<or> int (length (mem v2)) < cval a
                      then Inl (Overrun (Some v2))
                      else
                       (case memmove_from v2
                               (unat (to_size_t s1 * hdr_item_size v2))
                               (cval a + int (unat (to_size_t b * hdr_item_size v2)))
                               (unat (hdr_item_size v2
                                      * ((hdr_len v2 - 1) - to_size_t a + to_size_t b))) of
                          None \<Rightarrow> Inl (Overrun (Some v2))
                        | Some m \<Rightarrow> store_item (v2\<lparr>mem := m\<rparr>) (nat (cval s)) item)))))
          else Inr v))"

definition vec_swap :: "vec \<times> vec \<Rightarrow> vec \<times> vec" where
  "vec_swap p = (case p of (a, b) \<Rightarrow> (b, a))"

text \<open>
  \<^verbatim>\<open>vec_reserve(vec, size)\<close>. With the size text \<^verbatim>\<open>a + b\<close> the body reads
  \<^verbatim>\<open>(size_t) a + b == a + b && a + b > cap\<close> for the guard,
  \<^verbatim>\<open>sizeof(size_t) * 3 + a + b * item_size\<close> for the bytes requested and
  \<^verbatim>\<open>cap = a + b\<close> for the new capacity.
\<close>

fun vec_reserve :: "allocator \<Rightarrow> vec \<Rightarrow> marg \<Rightarrow> outcome" where
  "vec_reserve al v (Atom n) =
     (if cast_roundtrip n \<and> to_size_t n > hdr_cap v then
        case resize_block al v (hdr_bytes + to_size_t n * hdr_item_size v) of
          Inl f \<Rightarrow> Inl f
        | Inr v' \<Rightarrow> Inr (v'\<lparr>hdr_cap := to_size_t n\<rparr>)
      else Inr v)"
| "vec_reserve al v (Sum a b) =
     (case cadd a b of
        None \<Rightarrow> Inl SignedOverflow
      | Some s \<Rightarrow>
         (if to_size_t a + to_size_t b = to_size_t s \<and> to_size_t s > hdr_cap v then
            (case resize_block al v
                    (hdr_bytes + to_size_t a + to_size_t b * hdr_item_size v) of
               Inl f \<Rightarrow> Inl f
             | Inr v' \<Rightarrow> Inr (v'\<lparr>hdr_cap := to_size_t s\<rparr>))
          else Inr v))"

text \<open>The two macros are unfolded on request only.\<close>

declare vec_insert.simps [simp del] vec_reserve.simps [simp del]

definition vec_shrink :: "allocator \<Rightarrow> vec \<Rightarrow> outcome" where
  "vec_shrink al v =
     (if hdr_cap v \<noteq> hdr_len v then
        let nc = (if hdr_len v > 0 then hdr_len v else 1) in
        case resize_block al v (hdr_bytes + nc * hdr_item_size v) of
          Inl f \<Rightarrow> Inl f
        | Inr v' \<Rightarrow> Inr (v'\<lparr>hdr_cap := nc\<rparr>)
      else Inr v)"

section \<open>Well-formed vectors\<close>

text \<open>
  A valid handle: the block holds exactly \<open>capacity * item_size\<close> item bytes, that size
  together with the header fits a \<^verbatim>\<open>size_t\<close>, and the length does not exceed the capacity.
\<close>

definition well_formed :: "vec \<Rightarrow> bool" where
  "well_formed v \<longleftrightarrow>
     length (mem v) = unat (hdr_cap v) * unat (hdr_item_size v) \<and>
     24 + unat (hdr_cap v) * unat (hdr_item_size v) < 2 ^ 64 \<and>
     hdr_len v \<le> hdr_cap v"

text \<open>An allocator that grants every request and hands out zeroed junk, for examples.\<close>

definition generous :: allocator where
  "generous = \<lparr>avail = (\<lambda>n. True), junk = (\<lambda>i. 0)\<rparr>"

text \<open>A caller appending one item after another, stopping at the first fault.\<close>

fun vec_push_all :: "allocator \<Rightarrow> vec \<Rightarrow> byte list list \<Rightarrow> outcome" where
  "vec_push_all al v [] = Inr v"
| "vec_push_all al v (item # items) =
     (case vec_push al v item of Inl f \<Rightarrow> Inl f | Inr v' \<Rightarrow> vec_push_all al v' items)"

section \<open>Sample vectors\<close>

text \<open>Three 2-byte items in a block with room for four.\<close>

definition three_pairs :: vec where
  "three_pairs = \<lparr>hdr_cap = 4, hdr_len = 3, hdr_item_size = 2, mem = [1, 2, 3, 4, 5, 6, 0, 0]\<rparr>"

text \<open>What \<^verbatim>\<open>vec_newlen(4, 0)\<close> returns under the generous allocator: no room for any item.\<close>

definition no_room :: vec where
  "no_room = \<lparr>hdr_cap = 0, hdr_len = 0, hdr_item_size = 4, mem = []\<rparr>"

text \<open>What \<^verbatim>\<open>vec_new(4)\<close> returns under the generous allocator.\<close>

definition one_room :: vec where
  "one_room = \<lparr>hdr_cap = 1, hdr_len = 0, hdr_item_size = 4, mem = [0, 0, 0, 0]\<rparr>"

text \<open>Two 4-byte items in a block with room for exactly two.\<close>

definition full_two :: vec where
  "full_two = \<lparr>hdr_cap = 2, hdr_len = 2, hdr_item_size = 4, mem = [1, 0, 0, 0, 2, 0, 0, 0]\<rparr>"

text \<open>An allocator that grants at most 28 bytes: the header and four item bytes.\<close>

definition tight :: allocator where
  "tight = \<lparr>avail = (\<lambda>n. n \<le> 28), junk = (\<lambda>i. 0)\<rparr>"

text \<open>What \<^verbatim>\<open>vec_new(8)\<close> returns under the generous allocator.\<close>

definition eight_room :: vec where
  "eight_room = \<lparr>hdr_cap = 1, hdr_len = 0, hdr_item_size = 8, mem = [0, 0, 0, 0, 0, 0, 0, 0]\<rparr>"

text \<open>A full vector of single bytes, one item above \<^verbatim>\<open>VEC_MAX_PREALLOC\<close>.\<close>

definition big_bytes :: vec where
  "big_bytes = \<lparr>hdr_cap = 1048577, hdr_len = 1048577, hdr_item_size = 1,
                 mem = replicate 1048577 0\<rparr>"

text \<open>Two 8-byte items in a block with room for exactly two.\<close>

definition two_longs :: vec where
  "two_longs = \<lparr>hdr_cap = 2, hdr_len = 2, hdr_item_size = 8,
                 mem = [1, 0, 0, 0, 0, 0, 0, 0, 2, 0, 0, 0, 0, 0, 0, 0]\<rparr>"

text \<open>Three 4-byte items in a block with room for four.\<close>

definition three_ints :: vec where
  "three_ints = \<lparr>hdr_cap = 4, hdr_len = 3, hdr_item_size = 4,
                  mem = [1, 0, 0, 0, 2, 0, 0, 0, 3, 0, 0, 0, 0, 0, 0, 0]\<rparr>"

section \<open>Words and bytes\<close>

lemma unat_hdr_bytes: "unat hdr_bytes = 24"
  by (simp add: hdr_bytes_def)

lemma write_read_before:
  assumes "off + length bs \<le> length m" "a + k \<le> off"
  shows "take k (drop a (take off m @ bs @ drop (off + length bs) m)) = take k (drop a m)"
proof -
  have len: "length (take off m) = off" using assms by simp
  have "take k (drop a (take off m @ bs @ drop (off + length bs) m))
          = take k (drop a (take off m))"
    using assms len by simp
  also have "\<dots> = take k (take (off - a) (drop a m))"
    by (simp add: drop_take)
  also have "\<dots> = take k (drop a m)"
    using assms by (simp add: min_def)
  finally show ?thesis .
qed

lemma write_read_inside:
  assumes "off + length bs \<le> length m" "off \<le> a" "a + k \<le> off + length bs"
  shows "take k (drop a (take off m @ bs @ drop (off + length bs) m)) = take k (drop (a - off) bs)"
  using assms by (simp add: min_def)

lemma write_read_after:
  assumes "off + length bs \<le> length m" "off + length bs \<le> a"
  shows "take k (drop a (take off m @ bs @ drop (off + length bs) m)) = take k (drop a m)"
  using assms by (simp add: min_def)

lemma unat_mult_fits:
  fixes a b :: size_t
  assumes "unat a * unat b < 2 ^ 64"
  shows "unat (a * b) = unat a * unat b"
  using assms unat_mult_lem [of a b] by simp

lemma unat_add_fits:
  fixes a b :: size_t
  assumes "unat a + unat b < 2 ^ 64"
  shows "unat (a + b) = unat a + unat b"
  using assms unat_add_lem [of a b] by simp

lemma unat_succ_below:
  fixes a b :: size_t
  assumes "a < b"
  shows "unat (a + 1) = unat a + 1"
proof -
  have "unat a < unat b" using assms by (simp add: word_less_nat_alt)
  moreover have "unat b < 2 ^ 64" using unsigned_less [of b] by simp
  ultimately have "unat a + unat (1::size_t) < 2 ^ 64" by simp
  then show ?thesis using unat_add_fits [of a 1] by simp
qed

lemma read_of_take:
  assumes "x + k \<le> cnt"
  shows "take k (drop x (take cnt ys)) = take k (drop x ys)"
  using assms by (simp add: drop_take min_def)

lemma tail_bytes:
  fixes i n k :: nat
  assumes "i < n"
  shows "(i + 1) * k + k * (n - (i + 1)) = n * k"
proof -
  obtain d where "n = (i + 1) + d" using assms by (auto simp: less_iff_Suc_add)
  then show ?thesis by (simp add: algebra_simps)
qed

lemma moved_left_length:
  assumes "i < n" "n * k \<le> length m"
  shows "length (take (k * (n - (i + 1))) (drop ((i + 1) * k) m)) = k * (n - (i + 1))"
proof -
  have "(i + 1) * k + k * (n - (i + 1)) = n * k"
    using assms(1) by (rule tail_bytes)
  then show ?thesis using assms(2) by simp
qed

lemma remove_memmove:
  assumes "i < n" "n * k \<le> length m"
  shows "memmove m (i * k) ((i + 1) * k) (k * (n - (i + 1)))
           = Some (take (i * k) m @ take (k * (n - (i + 1))) (drop ((i + 1) * k) m)
                     @ drop (i * k + k * (n - (i + 1))) m)"
proof -
  have e: "(i + 1) * k + k * (n - (i + 1)) = n * k"
    using assms(1) by (rule tail_bytes)
  have "i * k + k * (n - (i + 1)) \<le> (i + 1) * k + k * (n - (i + 1))" by simp
  then have "i * k + k * (n - (i + 1)) \<le> length m" using e assms(2) by linarith
  moreover have "(i + 1) * k + k * (n - (i + 1)) \<le> length m" using e assms(2) by simp
  ultimately show ?thesis
    using moved_left_length [OF assms]
    by (simp add: memmove_def mem_read_def mem_write_def)
qed

lemma remove_slot_before:
  assumes "i < n" "n * k \<le> length m" "j < i"
  shows "slot k (take (i * k) m @ take (k * (n - (i + 1))) (drop ((i + 1) * k) m)
                   @ drop (i * k + k * (n - (i + 1))) m) j = slot k m j"
proof -
  let ?bs = "take (k * (n - (i + 1))) (drop ((i + 1) * k) m)"
  have l: "length ?bs = k * (n - (i + 1))" by (rule moved_left_length [OF assms(1,2)])
  have e: "(i + 1) * k + k * (n - (i + 1)) = n * k"
    using assms(1) by (rule tail_bytes)
  have b: "i * k + length ?bs \<le> length m" using l e assms(2) by (simp add: algebra_simps)
  have "(j + 1) * k \<le> i * k" using assms(3) by (intro mult_le_mono1) simp
  then have a: "j * k + k \<le> i * k" by simp
  show ?thesis
    unfolding slot_def using write_read_before [OF b a] l by simp
qed

lemma remove_slot_after:
  assumes "i < n" "n * k \<le> length m" "i \<le> j" "j + 1 < n"
  shows "slot k (take (i * k) m @ take (k * (n - (i + 1))) (drop ((i + 1) * k) m)
                   @ drop (i * k + k * (n - (i + 1))) m) j = slot k m (j + 1)"
proof -
  let ?bs = "take (k * (n - (i + 1))) (drop ((i + 1) * k) m)"
  have l: "length ?bs = k * (n - (i + 1))" by (rule moved_left_length [OF assms(1,2)])
  have e: "(i + 1) * k + k * (n - (i + 1)) = n * k"
    using assms(1) by (rule tail_bytes)
  have b: "i * k + length ?bs \<le> length m" using l e assms(2) by (simp add: algebra_simps)
  have lo: "i * k \<le> j * k" using assms(3) by (rule mult_le_mono1)
  obtain d where d: "j = i + d" using assms(3) by (auto simp: le_iff_add)
  have "d + 1 \<le> n - (i + 1)" using assms(4) d by simp
  then have "(d + 1) * k \<le> (n - (i + 1)) * k" by (rule mult_le_mono1)
  then have inner: "d * k + k \<le> k * (n - (i + 1))" by (simp add: algebra_simps)
  then have hi: "j * k + k \<le> i * k + length ?bs" using l d by (simp add: algebra_simps)
  have "take k (drop (j * k) (take (i * k) m @ ?bs @ drop (i * k + length ?bs) m))
          = take k (drop (j * k - i * k) ?bs)"
    by (rule write_read_inside [OF b lo hi])
  also have "j * k - i * k = d * k" using d by (simp add: algebra_simps)
  also have "take k (drop (d * k) ?bs) = take k (drop (d * k) (drop ((i + 1) * k) m))"
    by (rule read_of_take [OF inner])
  also have "\<dots> = take k (drop ((j + 1) * k) m)"
    using d by (simp add: algebra_simps)
  finally show ?thesis unfolding slot_def using l by simp
qed

lemma unat_max_size: "unat (- 1 :: size_t) = 2 ^ 64 - 1"
  by (simp add: unsigned_minus_1_eq_mask mask_eq_exp_minus_1)

section \<open>Arguments of the macros, evaluated\<close>

lemma cast_roundtrip_holds: "cast_roundtrip x"
  by (simp add: cast_roundtrip_def)

lemma ge_zero_iff: "ge_zero x \<longleftrightarrow> 0 \<le> cval x"
  by (cases x) simp_all

lemma uint_nonneg_sint:
  fixes w :: "'a::len word"
  assumes "0 \<le> sint w"
  shows "uint w = sint w"
proof -
  have "sint w < 2 ^ (LENGTH('a) - 1)" by (rule sint_lt)
  also have "(2::int) ^ (LENGTH('a) - 1) \<le> 2 ^ LENGTH('a)"
    by (rule power_increasing) simp_all
  finally have "take_bit LENGTH('a) (sint w) = sint w"
    using assms by (simp add: take_bit_int_eq_self)
  then show ?thesis by (simp add: uint_sint)
qed

lemma uint_scast_nonneg:
  fixes w :: "32 word"
  assumes "0 \<le> sint w"
  shows "uint (scast w :: 64 word) = sint w"
proof -
  have "sint w < 2 ^ (LENGTH(32) - 1)" by (rule sint_lt)
  also have "(2::int) ^ (LENGTH(32) - 1) \<le> 2 ^ LENGTH(64)"
    by (rule power_increasing) simp_all
  finally have "sint w mod 2 ^ LENGTH(64) = sint w"
    using assms by (simp only: mod_pos_pos_trivial)
  moreover have "uint (scast w :: 64 word) = sint w mod 2 ^ LENGTH(64)"
    unfolding scast_eq by (rule uint_word_of_int)
  ultimately show ?thesis by simp
qed

lemma uint_to_size_t: "0 \<le> cval x \<Longrightarrow> uint (to_size_t x) = cval x"
  by (cases x) (simp_all add: uint_scast_nonneg uint_nonneg_sint)

lemma insert_guard_iff:
  "cast_roundtrip x \<and> ge_zero x \<and> to_size_t x \<le> n \<longleftrightarrow> 0 \<le> cval x \<and> cval x \<le> uint n"
  using uint_to_size_t [of x]
  by (auto simp: cast_roundtrip_holds ge_zero_iff word_le_def)

lemma reserve_guard_iff:
  assumes "0 \<le> cval x"
  shows "cast_roundtrip x \<and> c < to_size_t x \<longleftrightarrow> uint c < cval x"
  using uint_to_size_t [OF assms]
  by (simp add: cast_roundtrip_holds word_less_def)

lemma scast_add_no_overflow:
  fixes a b :: "32 word"
  assumes "- (2 ^ 31) \<le> sint a + sint b" "sint a + sint b < 2 ^ 31"
  shows "(scast (a + b) :: 64 word) = scast a + scast b"
proof -
  have "sint (a + b) = signed_take_bit (LENGTH(32) - 1) (sint a + sint b)"
    by (rule sint_word_ariths(1))
  also have "\<dots> = signed_take_bit 31 (sint a + sint b)" by simp
  also have "\<dots> = sint a + sint b" by (rule signed_take_bit_int_eq_self [OF assms])
  finally have "(word_of_int (sint (a + b)) :: 64 word) = word_of_int (sint a + sint b)"
    by simp
  then show ?thesis by (simp only: scast_eq of_int_add)
qed

lemma cadd_to_size_t:
  assumes "cadd a b = Some s"
  shows "to_size_t a + to_size_t b = to_size_t s"
proof (cases a)
  case (CInt x)
  show ?thesis
  proof (cases b)
    case (CInt y)
    then show ?thesis using assms \<open>a = CInt x\<close>
      by (auto simp: scast_add_no_overflow split: if_splits)
  next
    case (CLong y)
    then show ?thesis using assms \<open>a = CInt x\<close> by (auto split: if_splits)
  next
    case (CSizeT y)
    then show ?thesis using assms \<open>a = CInt x\<close> by auto
  qed
next
  case (CLong x)
  show ?thesis
  proof (cases b)
    case (CInt y)
    then show ?thesis using assms \<open>a = CLong x\<close> by (auto split: if_splits)
  next
    case (CLong y)
    then show ?thesis using assms \<open>a = CLong x\<close> by (auto split: if_splits)
  next
    case (CSizeT y)
    then show ?thesis using assms \<open>a = CLong x\<close> by auto
  qed
next
  case (CSizeT x)
  then show ?thesis using assms by auto
qed

section \<open>Resizing the block\<close>

lemma total_fits:
  fixes x y :: size_t
  assumes "24 + unat x * unat y < 2 ^ 64"
  shows "unat (hdr_bytes + x * y) = 24 + unat x * unat y"
    and "\<not> hdr_bytes + x * y < hdr_bytes"
proof -
  have "unat x * unat y < 2 ^ 64" using assms by simp
  then have m: "unat (x * y) = unat x * unat y" by (rule unat_mult_fits)
  have "unat hdr_bytes + unat (x * y) < 2 ^ 64" using assms m by (simp add: unat_hdr_bytes)
  then have "unat (hdr_bytes + x * y) = unat hdr_bytes + unat (x * y)" by (rule unat_add_fits)
  then show s: "unat (hdr_bytes + x * y) = 24 + unat x * unat y"
    using m by (simp add: unat_hdr_bytes)
  show "\<not> hdr_bytes + x * y < hdr_bytes"
    using s by (simp add: word_less_nat_alt unat_hdr_bytes)
qed

lemma resize_block_refused:
  "\<not> avail al (unat nbytes) \<Longrightarrow> resize_block al v nbytes = Inl (Sigsegv (Some v))"
  by (simp add: resize_block_def)

lemma resize_block_granted:
  assumes "avail al (unat nbytes)" "\<not> nbytes < hdr_bytes"
  shows "resize_block al v nbytes =
           Inr (v\<lparr>mem := take (unat nbytes - 24) (mem v)
                     @ map (junk al) [length (mem v)..<unat nbytes - 24]\<rparr>)"
  using assms by (simp add: resize_block_def unat_hdr_bytes Let_def)

lemma resize_block_hdr:
  assumes "resize_block al v nbytes = Inr v'"
  shows "hdr_cap v' = hdr_cap v" "hdr_len v' = hdr_len v" "hdr_item_size v' = hdr_item_size v"
  using assms by (auto simp: resize_block_def Let_def split: if_splits)

lemma word_one_between:
  fixes l :: size_t
  assumes "l \<noteq> 0" "l \<le> 1"
  shows "l = 1"
proof -
  have "unat l \<le> 1" using assms(2) by (simp add: word_le_nat_alt)
  moreover have "0 < unat l" using assms(1) by (simp add: unat_gt_0)
  ultimately have "unat l = unat (1 :: size_t)" by simp
  then show ?thesis by (simp only: word_unat_eq_iff)
qed

lemma shrink_target:
  fixes l :: size_t
  shows "(if l > 0 then l else 1) = max l 1"
    and "max l 1 \<noteq> 0"
    and "unat (max l 1) = max (unat l) 1"
proof -
  show "(if l > 0 then l else 1) = max l 1"
    using word_one_between [of l]
    by (cases "l = 0") (auto simp: max_def word_greater_zero_iff)
  show "max l 1 \<noteq> 0" by (auto simp: max_def)
  show "unat (max l 1) = max (unat l) 1" by (simp add: max_def word_le_nat_alt)
qed

section \<open>Construction\<close>

lemma vec_newlen_wf:
  assumes "24 + unat isz * unat nitems < 2 ^ 64" "avail al (24 + unat isz * unat nitems)"
  shows "vec_newlen al isz nitems =
           Inr \<lparr>hdr_cap = nitems, hdr_len = 0, hdr_item_size = isz,
                mem = replicate (unat isz * unat nitems) 0\<rparr>"
    and "well_formed \<lparr>hdr_cap = nitems, hdr_len = 0, hdr_item_size = isz,
             mem = replicate (unat isz * unat nitems) 0\<rparr>"
proof -
  have u: "unat (hdr_bytes + isz * nitems) = 24 + unat isz * unat nitems"
    by (rule total_fits(1) [OF assms(1)])
  have nl: "\<not> hdr_bytes + isz * nitems < hdr_bytes" by (rule total_fits(2) [OF assms(1)])
  have "unat isz * unat nitems < 2 ^ 64" using assms(1) by simp
  then have m: "unat (isz * nitems) = unat isz * unat nitems" by (rule unat_mult_fits)
  show "vec_newlen al isz nitems =
           Inr \<lparr>hdr_cap = nitems, hdr_len = 0, hdr_item_size = isz,
                mem = replicate (unat isz * unat nitems) 0\<rparr>"
    using assms(2) u nl m
    by (simp add: vec_newlen_def Let_def mem_write_def unat_hdr_bytes)
  show "well_formed \<lparr>hdr_cap = nitems, hdr_len = 0, hdr_item_size = isz,
             mem = replicate (unat isz * unat nitems) 0\<rparr>"
    using assms(1) by (simp add: well_formed_def mult.commute)
qed

lemma zeros4: "replicate 4 (0::byte) = [0, 0, 0, 0]"
  by (simp add: numeral_eq_Suc)

lemma zeros8: "replicate 8 (0::byte) = [0, 0, 0, 0, 0, 0, 0, 0]"
  by (simp add: numeral_eq_Suc)

lemma two_below_max: "(2 :: size_t) < - 1"
  by (simp add: word_less_nat_alt unat_max_size)

lemma two_below_big: "(2 :: size_t) < - 2305843009213693952"
  by (simp add: word_less_nat_alt)

lemmas eval_defs =
  vec_newlen_def vec_new_def vec_push_def vec_insert.simps vec_reserve.simps vec_grow_def
  resize_block_def store_item_def mem_write_def mem_read_def memmove_def cast_roundtrip_def
  new_total_size_def new_cap_def hdr_bytes_def VEC_MAX_PREALLOC_def generous_def Let_def
  memmove_from_def hdr_image_def le64_def

section \<open>The size query\<close>

text \<open>
  C3, as amended. \<^verbatim>\<open>vec_size\<close> returns the length field of the header, the same value
  as \<^verbatim>\<open>vec_len\<close>, and not the item size.
\<close>

theorem vec_size_is_length: "vec_size v = hdr_len v \<and> vec_size v = vec_len v"
  by (simp add: vec_size_def vec_len_def)

text \<open>
  C3, as stated, fails: a vector of capacity 1 for 4-byte items that holds nothing has
  size query 0, while its item size is 4.
\<close>

theorem vec_size_not_item_size:
  "vec_size \<lparr>hdr_cap = 1, hdr_len = 0, hdr_item_size = 4, mem = [0, 0, 0, 0]\<rparr>
     \<noteq> hdr_item_size \<lparr>hdr_cap = 1, hdr_len = 0, hdr_item_size = 4, mem = [0, 0, 0, 0]\<rparr>"
  by (simp add: vec_size_def)

section \<open>Removing an item\<close>

lemma wf_mem_length: "well_formed v \<Longrightarrow> length (mem v) = unat (hdr_cap v) * unat (hdr_item_size v)"
  by (simp add: well_formed_def)

lemma wf_bytes_fit: "well_formed v \<Longrightarrow> unat (hdr_cap v) * unat (hdr_item_size v) < 2 ^ 64"
  by (simp add: well_formed_def)

lemma wf_prefix_fits:
  assumes "well_formed v" "j \<le> unat (hdr_cap v)"
  shows "j * unat (hdr_item_size v) \<le> length (mem v)"
    and "j * unat (hdr_item_size v) < 2 ^ 64"
proof -
  have le: "j * unat (hdr_item_size v) \<le> unat (hdr_cap v) * unat (hdr_item_size v)"
    using assms(2) by (rule mult_le_mono1)
  show "j * unat (hdr_item_size v) \<le> length (mem v)"
    using le wf_mem_length [OF assms(1)] by simp
  show "j * unat (hdr_item_size v) < 2 ^ 64"
    using le wf_bytes_fit [OF assms(1)] by (rule order_le_less_trans)
qed

lemma wf_len_le_cap: "well_formed v \<Longrightarrow> unat (hdr_len v) \<le> unat (hdr_cap v)"
  by (simp add: well_formed_def word_le_nat_alt)

lemma remove_offsets:
  assumes "well_formed v" "index < hdr_len v"
  shows "unat (index * hdr_item_size v) = unat index * unat (hdr_item_size v)"
    and "unat ((index + 1) * hdr_item_size v) = (unat index + 1) * unat (hdr_item_size v)"
    and "unat (hdr_item_size v * (hdr_len v - (index + 1)))
           = unat (hdr_item_size v) * (unat (hdr_len v) - (unat index + 1))"
proof -
  let ?k = "unat (hdr_item_size v)"
  have lt: "unat index < unat (hdr_len v)" using assms(2) by (simp add: word_less_nat_alt)
  have le: "unat (hdr_len v) \<le> unat (hdr_cap v)" by (rule wf_len_le_cap [OF assms(1)])
  have s: "unat (index + 1) = unat index + 1" by (rule unat_succ_below [OF assms(2)])
  have "unat index \<le> unat (hdr_cap v)" using lt le by simp
  then have "unat index * ?k < 2 ^ 64" by (rule wf_prefix_fits(2) [OF assms(1)])
  then show "unat (index * hdr_item_size v) = unat index * ?k" by (rule unat_mult_fits)
  have "unat index + 1 \<le> unat (hdr_cap v)" using lt le by simp
  then have "(unat index + 1) * ?k < 2 ^ 64" by (rule wf_prefix_fits(2) [OF assms(1)])
  then have "unat (index + 1) * ?k < 2 ^ 64" using s by simp
  then have "unat ((index + 1) * hdr_item_size v) = unat (index + 1) * ?k"
    by (rule unat_mult_fits)
  then show "unat ((index + 1) * hdr_item_size v) = (unat index + 1) * ?k" using s by simp
  have "index + 1 \<le> hdr_len v" using lt s by (simp add: word_le_nat_alt)
  then have d: "unat (hdr_len v - (index + 1)) = unat (hdr_len v) - (unat index + 1)"
    using s by (simp add: unat_sub)
  have "unat (hdr_len v) - (unat index + 1) \<le> unat (hdr_cap v)" using le by simp
  then have "(unat (hdr_len v) - (unat index + 1)) * ?k < 2 ^ 64"
    by (rule wf_prefix_fits(2) [OF assms(1)])
  then have "?k * unat (hdr_len v - (index + 1)) < 2 ^ 64"
    using d by (simp add: mult.commute)
  then have "unat (hdr_item_size v * (hdr_len v - (index + 1)))
               = ?k * unat (hdr_len v - (index + 1))"
    by (rule unat_mult_fits)
  then show "unat (hdr_item_size v * (hdr_len v - (index + 1)))
               = ?k * (unat (hdr_len v) - (unat index + 1))"
    using d by simp
qed

lemma vec_remove_valid:
  assumes "well_formed v" "index < hdr_len v"
  shows "vec_remove v index =
           Inr (v\<lparr>mem := take (unat index * unat (hdr_item_size v)) (mem v)
                     @ take (unat (hdr_item_size v) * (unat (hdr_len v) - (unat index + 1)))
                         (drop ((unat index + 1) * unat (hdr_item_size v)) (mem v))
                     @ drop (unat index * unat (hdr_item_size v)
                         + unat (hdr_item_size v) * (unat (hdr_len v) - (unat index + 1))) (mem v),
                 hdr_len := hdr_len v - 1\<rparr>)"
proof -
  have lt: "unat index < unat (hdr_len v)" using assms(2) by (simp add: word_less_nat_alt)
  have fits: "unat (hdr_len v) * unat (hdr_item_size v) \<le> length (mem v)"
    using wf_prefix_fits(1) [OF assms(1) wf_len_le_cap [OF assms(1)]] .
  have pos: "0 < hdr_len v" using assms(2) by (simp add: word_less_nat_alt)
  show ?thesis
    using assms(2) pos remove_memmove [OF lt fits]
    by (simp add: vec_remove_def remove_offsets [OF assms])
qed

text \<open>
  C5. On a well-formed vector, \<^verbatim>\<open>vec_remove\<close> with an index below the length returns
  a vector one item shorter, with the same capacity and item size, whose slots before
  the index are the old ones and whose slots from the index on are the old slots one
  place further right. With an index not below the length (in particular on an empty
  vector) it returns the vector as it is.
\<close>

theorem vec_remove_shifts_left:
  "(well_formed v \<and> index < hdr_len v \<longrightarrow>
      (\<exists>v'. vec_remove v index = Inr v' \<and>
         unat (hdr_len v') + 1 = unat (hdr_len v) \<and>
         hdr_cap v' = hdr_cap v \<and> hdr_item_size v' = hdr_item_size v \<and>
         length (mem v') = length (mem v) \<and>
         (\<forall>j. j < unat index \<longrightarrow>
            slot (unat (hdr_item_size v)) (mem v') j = slot (unat (hdr_item_size v)) (mem v) j) \<and>
         (\<forall>j. unat index \<le> j \<and> j < unat (hdr_len v') \<longrightarrow>
            slot (unat (hdr_item_size v)) (mem v') j
              = slot (unat (hdr_item_size v)) (mem v) (j + 1)))) \<and>
   (\<not> index < hdr_len v \<longrightarrow> vec_remove v index = Inr v)"
proof (intro conjI impI)
  assume "\<not> index < hdr_len v"
  then show "vec_remove v index = Inr v" by (simp add: vec_remove_def)
next
  assume a: "well_formed v \<and> index < hdr_len v"
  then have w: "well_formed v" and i: "index < hdr_len v" by simp_all
  let ?k = "unat (hdr_item_size v)"
  let ?m' = "take (unat index * ?k) (mem v)
               @ take (?k * (unat (hdr_len v) - (unat index + 1)))
                   (drop ((unat index + 1) * ?k) (mem v))
               @ drop (unat index * ?k + ?k * (unat (hdr_len v) - (unat index + 1))) (mem v)"
  let ?v' = "v\<lparr>mem := ?m', hdr_len := hdr_len v - 1\<rparr>"
  have lt: "unat index < unat (hdr_len v)" using i by (simp add: word_less_nat_alt)
  have fits: "unat (hdr_len v) * ?k \<le> length (mem v)"
    using wf_prefix_fits(1) [OF w wf_len_le_cap [OF w]] .
  have r: "vec_remove v index = Inr ?v'" by (rule vec_remove_valid [OF w i])
  have "1 \<le> hdr_len v" using lt by (simp add: word_le_nat_alt)
  then have "unat (hdr_len v - 1) = unat (hdr_len v) - 1" by (simp add: unat_sub)
  then have n: "unat (hdr_len ?v') + 1 = unat (hdr_len v)" using lt by simp
  have l: "length ?m' = length (mem v)"
    using moved_left_length [OF lt fits] tail_bytes [OF lt, of ?k] fits by simp
  have before: "\<forall>j. j < unat index \<longrightarrow> slot ?k ?m' j = slot ?k (mem v) j"
    using remove_slot_before [OF lt fits] by blast
  have after: "\<forall>j. unat index \<le> j \<and> j < unat (hdr_len ?v') \<longrightarrow>
                 slot ?k ?m' j = slot ?k (mem v) (j + 1)"
  proof (intro allI impI)
    fix j assume "unat index \<le> j \<and> j < unat (hdr_len ?v')"
    then have "unat index \<le> j" and "j + 1 < unat (hdr_len v)" using n by simp_all
    then show "slot ?k ?m' j = slot ?k (mem v) (j + 1)"
      by (rule remove_slot_after [OF lt fits])
  qed
  show "\<exists>v'. vec_remove v index = Inr v' \<and>
         unat (hdr_len v') + 1 = unat (hdr_len v) \<and>
         hdr_cap v' = hdr_cap v \<and> hdr_item_size v' = hdr_item_size v \<and>
         length (mem v') = length (mem v) \<and>
         (\<forall>j. j < unat index \<longrightarrow> slot ?k (mem v') j = slot ?k (mem v) j) \<and>
         (\<forall>j. unat index \<le> j \<and> j < unat (hdr_len v') \<longrightarrow>
            slot ?k (mem v') j = slot ?k (mem v) (j + 1))"
  proof (intro exI [of _ ?v'] conjI)
    show "vec_remove v index = Inr ?v'" by (rule r)
    show "unat (hdr_len ?v') + 1 = unat (hdr_len v)" by (rule n)
    show "hdr_cap ?v' = hdr_cap v" by simp
    show "hdr_item_size ?v' = hdr_item_size v" by simp
    show "length (mem ?v') = length (mem v)" using l by simp
    show "\<forall>j. j < unat index \<longrightarrow> slot ?k (mem ?v') j = slot ?k (mem v) j"
      using before by simp
    show "\<forall>j. unat index \<le> j \<and> j < unat (hdr_len ?v') \<longrightarrow>
            slot ?k (mem ?v') j = slot ?k (mem v) (j + 1)"
      using after by simp
  qed
qed

theorem vec_remove_shifts_left_witness:
  "well_formed three_pairs \<and> 1 < hdr_len three_pairs \<and>
   (\<exists>v'. vec_remove three_pairs 1 = Inr v' \<and> unat (hdr_len v') = 2 \<and>
      slot 2 (mem v') 0 = [1, 2] \<and> slot 2 (mem v') 1 = [5, 6])"
proof -
  have h: "well_formed three_pairs \<and> 1 < hdr_len three_pairs"
    by (simp add: well_formed_def three_pairs_def)
  have k: "unat (hdr_item_size three_pairs) = 2" and n: "unat (hdr_len three_pairs) = 3"
    by (simp_all add: three_pairs_def)
  from vec_remove_shifts_left [of three_pairs 1] h
  obtain v' where r: "vec_remove three_pairs 1 = Inr v'"
    and l: "unat (hdr_len v') + 1 = unat (hdr_len three_pairs)"
    and b: "\<forall>j. j < unat (1 :: size_t) \<longrightarrow>
              slot (unat (hdr_item_size three_pairs)) (mem v') j
                = slot (unat (hdr_item_size three_pairs)) (mem three_pairs) j"
    and a: "\<forall>j. unat (1 :: size_t) \<le> j \<and> j < unat (hdr_len v') \<longrightarrow>
              slot (unat (hdr_item_size three_pairs)) (mem v') j
                = slot (unat (hdr_item_size three_pairs)) (mem three_pairs) (j + 1)"
    by blast
  have l2: "unat (hdr_len v') = 2" using l n by simp
  have "slot 2 (mem v') 0 = [1, 2]"
    using spec [OF b, of 0] k by (simp add: slot_def three_pairs_def)
  moreover have "slot 2 (mem v') 1 = [5, 6]"
    using spec [OF a, of 1] k l2 by (simp add: slot_def three_pairs_def)
  ultimately show ?thesis using h r l2 by blast
qed

section \<open>The growth block\<close>

lemma vec_grow_cap:
  assumes "hdr_len v = hdr_cap v" "vec_grow al v = Inr v1"
  shows "hdr_cap v1 = new_cap v" "hdr_len v1 = hdr_len v" "hdr_item_size v1 = hdr_item_size v"
  using assms
  by (auto simp: vec_grow_def resize_block_def Let_def split: if_splits sum.splits)

lemma store_item_hdr:
  assumes "store_item v i item = Inr v'"
  shows "hdr_cap v' = hdr_cap v" "hdr_len v' = hdr_len v" "hdr_item_size v' = hdr_item_size v"
  using assms by (auto simp: store_item_def split: option.splits)

lemma vec_push_hdr:
  assumes "vec_push al v item = Inr v'"
  obtains v1 where "vec_grow al v = Inr v1" "hdr_cap v' = hdr_cap v1"
    "hdr_len v' = hdr_len v1 + 1" "hdr_item_size v' = hdr_item_size v1"
proof (cases "vec_grow al v")
  case (Inl f)
  then show ?thesis using assms by (simp add: vec_push_def)
next
  case (Inr v1)
  then have "store_item (v1\<lparr>hdr_len := hdr_len v1 + 1\<rparr>) (unat (hdr_len v1 + 1 - 1)) item = Inr v'"
    using assms by (simp add: vec_push_def Let_def)
  from store_item_hdr [OF this] Inr that show ?thesis by simp
qed

lemma insert_text_guard:
  assumes "cadd a b = Some s"
  shows "to_size_t a + to_size_t b = to_size_t s \<and> ge_zero s \<and> to_size_t s \<le> n
           \<longleftrightarrow> 0 \<le> cval s \<and> cval s \<le> uint n"
  using cadd_to_size_t [OF assms] insert_guard_iff [of s n] cast_roundtrip_holds [of s]
  by simp

lemma vec_insert_invalid:
  assumes "mval index = Some x" "\<not> (0 \<le> cval x \<and> cval x \<le> uint (hdr_len v))"
  shows "vec_insert al v item index = Inr v"
proof (cases index)
  case (Atom y)
  then have "\<not> (cast_roundtrip y \<and> ge_zero y \<and> to_size_t y \<le> hdr_len v)"
    using assms insert_guard_iff [of y "hdr_len v"] by simp
  then show ?thesis unfolding Atom vec_insert.simps by (rule if_not_P)
next
  case (Sum a b)
  then have c: "cadd a b = Some x" using assms(1) by simp
  then have "\<not> (to_size_t a + to_size_t b = to_size_t x \<and> ge_zero x
                \<and> to_size_t x \<le> hdr_len v)"
    using assms(2) insert_text_guard [OF c, of "hdr_len v"] by simp
  then show ?thesis unfolding Sum vec_insert.simps c option.case by (rule if_not_P)
qed

lemma vec_insert_grow_fails:
  assumes "mval index = Some x" "0 \<le> cval x" "cval x \<le> uint (hdr_len v)"
    and "vec_grow al v = Inl f"
  shows "vec_insert al v item index = Inl f"
proof (cases index)
  case (Atom y)
  then have "cast_roundtrip y \<and> ge_zero y \<and> to_size_t y \<le> hdr_len v"
    using assms(1,2,3) insert_guard_iff [of y "hdr_len v"] by simp
  then show ?thesis unfolding Atom vec_insert.simps using assms(4) by simp
next
  case (Sum a b)
  then have c: "cadd a b = Some x" using assms(1) by simp
  then have "to_size_t a + to_size_t b = to_size_t x \<and> ge_zero x \<and> to_size_t x \<le> hdr_len v"
    using assms(2,3) insert_text_guard [OF c, of "hdr_len v"] by simp
  then show ?thesis unfolding Sum vec_insert.simps using c assms(4) by simp
qed

lemma vec_insert_hdr:
  assumes "vec_insert al v item index = Inr v'"
    and "mval index = Some x" "0 \<le> cval x" "cval x \<le> uint (hdr_len v)"
  obtains v1 where "vec_grow al v = Inr v1" "hdr_cap v' = hdr_cap v1"
    "hdr_len v' = hdr_len v1 + 1" "hdr_item_size v' = hdr_item_size v1"
proof (cases "vec_grow al v")
  case (Inl f)
  then show ?thesis using assms vec_insert_grow_fails [OF assms(2,3,4) Inl] by simp
next
  case (Inr v1)
  let ?v2 = "v1\<lparr>hdr_len := hdr_len v1 + 1\<rparr>"
  have "\<exists>m. store_item (?v2\<lparr>mem := m\<rparr>) (nat (cval x)) item = Inr v'"
  proof (cases index)
    case (Atom y)
    then have "cast_roundtrip y \<and> ge_zero y \<and> to_size_t y \<le> hdr_len v" and "y = x"
      using assms(2,3,4) insert_guard_iff [of y "hdr_len v"] by simp_all
    then show ?thesis using assms(1) Inr unfolding Atom vec_insert.simps
      by (auto simp: Let_def split: option.splits)
  next
    case (Sum a b)
    then have c: "cadd a b = Some x" using assms(2) by simp
    then have "to_size_t a + to_size_t b = to_size_t x \<and> ge_zero x
                 \<and> to_size_t x \<le> hdr_len v"
      using assms(3,4) insert_text_guard [OF c, of "hdr_len v"] by simp
    then show ?thesis using assms(1) Inr c unfolding Sum vec_insert.simps
      by (auto simp: Let_def split: option.splits if_splits)
  qed
  then obtain m where "store_item (?v2\<lparr>mem := m\<rparr>) (nat (cval x)) item = Inr v'" by blast
  from store_item_hdr [OF this] Inr that show ?thesis by simp
qed

lemma double_fits:
  assumes "c \<le> VEC_MAX_PREALLOC"
  shows "unat (c * 2) = unat c * 2"
proof -
  have "unat c \<le> unat VEC_MAX_PREALLOC" using assms by (simp add: word_le_nat_alt)
  then have "unat c \<le> 1048576" by (simp add: VEC_MAX_PREALLOC_def)
  then have "unat c * unat (2 :: size_t) < 2 ^ 64" by simp
  then have "unat (c * 2) = unat c * unat (2 :: size_t)" by (rule unat_mult_fits)
  then show ?thesis by simp
qed

lemma succ_fits:
  fixes c :: size_t
  assumes "c \<noteq> - 1"
  shows "unat (c + 1) = unat c + 1"
proof -
  have "c < - 1" using assms by (simp add: word_order.not_eq_extremum)
  then show ?thesis by (rule unat_succ_below)
qed

section \<open>Calls that change nothing\<close>

text \<open>
  C8. \<^verbatim>\<open>vec_insert\<close> with an index below 0 or above the length, \<^verbatim>\<open>vec_remove\<close> with an
  index not below the length, and \<^verbatim>\<open>vec_pop\<close> on an empty vector return normally, and
  the vector they leave is the one they were given: header fields and bytes alike. For
  \<^verbatim>\<open>vec_insert\<close> this holds for an index written as one operand and for an index written
  as a sum \<^verbatim>\<open>a + b\<close> that does not overflow.
\<close>

theorem invalid_calls_change_nothing:
  "(\<not> (0 \<le> cval index \<and> cval index \<le> uint (hdr_len v)) \<longrightarrow>
      vec_insert al v item (Atom index) = Inr v) \<and>
   (cadd a b = Some s \<and> \<not> (0 \<le> cval s \<and> cval s \<le> uint (hdr_len v)) \<longrightarrow>
      vec_insert al v item (Sum a b) = Inr v) \<and>
   (\<not> i < hdr_len v \<longrightarrow> vec_remove v i = Inr v) \<and>
   (hdr_len v = 0 \<longrightarrow> vec_pop v = v)"
proof (intro conjI impI)
  assume n: "\<not> (0 \<le> cval index \<and> cval index \<le> uint (hdr_len v))"
  have "mval (Atom index) = Some index" by simp
  then show "vec_insert al v item (Atom index) = Inr v"
    using n by (rule vec_insert_invalid)
next
  assume a: "cadd a b = Some s \<and> \<not> (0 \<le> cval s \<and> cval s \<le> uint (hdr_len v))"
  then have "mval (Sum a b) = Some s" by simp
  then show "vec_insert al v item (Sum a b) = Inr v"
    using a by (intro vec_insert_invalid) blast+
next
  assume "\<not> i < hdr_len v"
  then show "vec_remove v i = Inr v" by (simp add: vec_remove_def)
next
  assume "hdr_len v = 0"
  then show "vec_pop v = v" by (simp add: vec_pop_def)
qed

theorem invalid_calls_change_nothing_witness:
  "\<not> (0 \<le> cval (CInt (- 1)) \<and> cval (CInt (- 1)) \<le> uint (hdr_len three_pairs)) \<and>
   vec_insert generous three_pairs [7, 7] (Atom (CInt (- 1))) = Inr three_pairs \<and>
   \<not> (0 \<le> cval (CSizeT 4) \<and> cval (CSizeT 4) \<le> uint (hdr_len three_pairs)) \<and>
   vec_insert generous three_pairs [7, 7] (Atom (CSizeT 4)) = Inr three_pairs \<and>
   cadd (CInt 2) (CInt 3) = Some (CInt 5) \<and>
   \<not> (0 \<le> cval (CInt 5) \<and> cval (CInt 5) \<le> uint (hdr_len three_pairs)) \<and>
   vec_insert generous three_pairs [7, 7] (Sum (CInt 2) (CInt 3)) = Inr three_pairs \<and>
   \<not> 3 < hdr_len three_pairs \<and> vec_remove three_pairs 3 = Inr three_pairs \<and>
   hdr_len no_room = 0 \<and> vec_pop no_room = no_room"
proof -
  have a: "\<not> (0 \<le> cval (CInt (- 1)) \<and> cval (CInt (- 1)) \<le> uint (hdr_len three_pairs))"
    by simp
  have b: "\<not> (0 \<le> cval (CSizeT 4) \<and> cval (CSizeT 4) \<le> uint (hdr_len three_pairs))"
    by (simp add: three_pairs_def)
  have c: "\<not> 3 < hdr_len three_pairs" by (simp add: three_pairs_def)
  have d: "hdr_len no_room = 0" by (simp add: no_room_def)
  have e: "cadd (CInt 2) (CInt 3) = Some (CInt 5)" by simp
  have f: "\<not> (0 \<le> cval (CInt 5) \<and> cval (CInt 5) \<le> uint (hdr_len three_pairs))"
    by (simp add: three_pairs_def)
  from invalid_calls_change_nothing
         [of "CInt (- 1)" three_pairs generous "[7, 7]" "CInt 2" "CInt 3" "CInt 5" 3] a c e f
  have "vec_insert generous three_pairs [7, 7] (Atom (CInt (- 1))) = Inr three_pairs"
    and "vec_insert generous three_pairs [7, 7] (Sum (CInt 2) (CInt 3)) = Inr three_pairs"
    and "vec_remove three_pairs 3 = Inr three_pairs" by blast+
  moreover from invalid_calls_change_nothing
         [of "CSizeT 4" three_pairs generous "[7, 7]" "CInt 2" "CInt 3" "CInt 5" 3] b
  have "vec_insert generous three_pairs [7, 7] (Atom (CSizeT 4)) = Inr three_pairs" by blast
  moreover from invalid_calls_change_nothing
         [of "CInt 0" no_room generous "[]" "CInt 0" "CInt 0" "CInt 0" 0] d
  have "vec_pop no_room = no_room" by blast
  ultimately show ?thesis using a b c d e f by blast
qed

section \<open>Allocation failure\<close>

text \<open>
  C9. Every operation that asks the allocator for memory ends in \<open>Sigsegv\<close> when the
  request is refused: \<^verbatim>\<open>vec_newlen\<close>, \<^verbatim>\<open>vec_newsize\<close> and \<^verbatim>\<open>vec_new\<close> before any vector
  exists, \<^verbatim>\<open>vec_dup\<close>, \<^verbatim>\<open>vec_push\<close> and \<^verbatim>\<open>vec_insert\<close> on a full vector,
  \<^verbatim>\<open>vec_reserve\<close> beyond the capacity and \<^verbatim>\<open>vec_shrink\<close> of a vector with spare room
  with the vector exactly as it was passed in. No vector is returned on that path. For the
  two macros with an index or size argument the argument is one operand or a sum
  \<^verbatim>\<open>a + b\<close>; the bytes requested are those the macro body computes from that text.
\<close>

theorem allocation_failure_is_fatal:
  "(\<not> avail al (unat (hdr_bytes + isz * nitems)) \<longrightarrow>
      vec_newlen al isz nitems = Inl (Sigsegv None) \<and>
      vec_newsize al isz nitems = Inl (Sigsegv None)) \<and>
   (\<not> avail al (unat (hdr_bytes + isz * 1)) \<longrightarrow> vec_new al isz = Inl (Sigsegv None)) \<and>
   (\<not> avail al (unat (vec_total_size v)) \<longrightarrow> vec_dup al v = Inl (Sigsegv (Some v))) \<and>
   (hdr_len v = hdr_cap v \<and> \<not> avail al (unat (new_total_size v)) \<longrightarrow>
      vec_push al v item = Inl (Sigsegv (Some v))) \<and>
   (hdr_len v = hdr_cap v \<and> 0 \<le> cval index \<and> cval index \<le> uint (hdr_len v) \<and>
    \<not> avail al (unat (new_total_size v)) \<longrightarrow>
      vec_insert al v item (Atom index) = Inl (Sigsegv (Some v))) \<and>
   (hdr_len v = hdr_cap v \<and> cadd a b = Some s \<and> 0 \<le> cval s \<and> cval s \<le> uint (hdr_len v) \<and>
    \<not> avail al (unat (new_total_size v)) \<longrightarrow>
      vec_insert al v item (Sum a b) = Inl (Sigsegv (Some v))) \<and>
   (hdr_cap v < to_size_t n \<and> \<not> avail al (unat (hdr_bytes + to_size_t n * hdr_item_size v)) \<longrightarrow>
      vec_reserve al v (Atom n) = Inl (Sigsegv (Some v))) \<and>
   (cadd c d = Some t \<and> hdr_cap v < to_size_t t \<and>
    \<not> avail al (unat (hdr_bytes + to_size_t c + to_size_t d * hdr_item_size v)) \<longrightarrow>
      vec_reserve al v (Sum c d) = Inl (Sigsegv (Some v))) \<and>
   (hdr_cap v \<noteq> hdr_len v \<and>
    \<not> avail al (unat (hdr_bytes + max (hdr_len v) 1 * hdr_item_size v)) \<longrightarrow>
      vec_shrink al v = Inl (Sigsegv (Some v)))"
proof (intro conjI impI)
  assume "\<not> avail al (unat (hdr_bytes + isz * nitems))"
  then show "vec_newlen al isz nitems = Inl (Sigsegv None)"
    and "vec_newsize al isz nitems = Inl (Sigsegv None)"
    by (simp_all add: vec_newsize_def vec_newlen_def Let_def)
next
  assume "\<not> avail al (unat (hdr_bytes + isz * 1))"
  then show "vec_new al isz = Inl (Sigsegv None)"
    by (simp add: vec_new_def vec_newlen_def Let_def)
next
  assume "\<not> avail al (unat (vec_total_size v))"
  then show "vec_dup al v = Inl (Sigsegv (Some v))"
    by (simp add: vec_dup_def vec_total_size_def Let_def)
next
  assume "hdr_len v = hdr_cap v \<and> \<not> avail al (unat (new_total_size v))"
  then have "vec_grow al v = Inl (Sigsegv (Some v))"
    by (simp add: vec_grow_def resize_block_refused)
  then show "vec_push al v item = Inl (Sigsegv (Some v))"
    by (simp add: vec_push_def)
next
  assume a: "hdr_len v = hdr_cap v \<and> 0 \<le> cval index \<and> cval index \<le> uint (hdr_len v) \<and>
             \<not> avail al (unat (new_total_size v))"
  then have g: "vec_grow al v = Inl (Sigsegv (Some v))"
    by (simp add: vec_grow_def resize_block_refused)
  from a have i1: "0 \<le> cval index" and i2: "cval index \<le> uint (hdr_len v)" by blast+
  have "mval (Atom index) = Some index" by simp
  then show "vec_insert al v item (Atom index) = Inl (Sigsegv (Some v))"
    using i1 i2 g by (rule vec_insert_grow_fails)
next
  assume a: "hdr_len v = hdr_cap v \<and> cadd a b = Some s \<and> 0 \<le> cval s \<and>
             cval s \<le> uint (hdr_len v) \<and> \<not> avail al (unat (new_total_size v))"
  then have g: "vec_grow al v = Inl (Sigsegv (Some v))"
    by (simp add: vec_grow_def resize_block_refused)
  from a have i1: "0 \<le> cval s" and i2: "cval s \<le> uint (hdr_len v)" by blast+
  have "mval (Sum a b) = Some s" using a by simp
  then show "vec_insert al v item (Sum a b) = Inl (Sigsegv (Some v))"
    using i1 i2 g by (rule vec_insert_grow_fails)
next
  assume "hdr_cap v < to_size_t n \<and>
          \<not> avail al (unat (hdr_bytes + to_size_t n * hdr_item_size v))"
  then show "vec_reserve al v (Atom n) = Inl (Sigsegv (Some v))"
    by (simp add: vec_reserve.simps cast_roundtrip_holds resize_block_refused)
next
  assume a: "cadd c d = Some t \<and> hdr_cap v < to_size_t t \<and>
          \<not> avail al (unat (hdr_bytes + to_size_t c + to_size_t d * hdr_item_size v))"
  then have "to_size_t c + to_size_t d = to_size_t t" using cadd_to_size_t by blast
  then show "vec_reserve al v (Sum c d) = Inl (Sigsegv (Some v))"
    using a by (simp add: vec_reserve.simps resize_block_refused)
next
  assume "hdr_cap v \<noteq> hdr_len v \<and>
          \<not> avail al (unat (hdr_bytes + max (hdr_len v) 1 * hdr_item_size v))"
  then show "vec_shrink al v = Inl (Sigsegv (Some v))"
    by (simp add: vec_shrink_def shrink_target(1) resize_block_refused)
qed

theorem allocation_failure_is_fatal_witness:
  "\<not> avail tight (unat (hdr_bytes + 4 * 2)) \<and>
   vec_newlen tight 4 2 = Inl (Sigsegv None) \<and>
   \<not> avail tight (unat (hdr_bytes + 8 * 1)) \<and>
   vec_new tight 8 = Inl (Sigsegv None) \<and>
   \<not> avail tight (unat (vec_total_size full_two)) \<and>
   vec_dup tight full_two = Inl (Sigsegv (Some full_two)) \<and>
   hdr_len full_two = hdr_cap full_two \<and>
   \<not> avail tight (unat (new_total_size full_two)) \<and>
   vec_push tight full_two [3, 0, 0, 0] = Inl (Sigsegv (Some full_two)) \<and>
   0 \<le> cval (CInt 1) \<and> cval (CInt 1) \<le> uint (hdr_len full_two) \<and>
   vec_insert tight full_two [3, 0, 0, 0] (Atom (CInt 1)) = Inl (Sigsegv (Some full_two)) \<and>
   cadd (CInt 1) (CInt 0) = Some (CInt 1) \<and>
   vec_insert tight full_two [3, 0, 0, 0] (Sum (CInt 1) (CInt 0))
     = Inl (Sigsegv (Some full_two)) \<and>
   hdr_cap full_two < to_size_t (CInt 3) \<and>
   \<not> avail tight (unat (hdr_bytes + to_size_t (CInt 3) * hdr_item_size full_two)) \<and>
   vec_reserve tight full_two (Atom (CInt 3)) = Inl (Sigsegv (Some full_two)) \<and>
   cadd (CInt 2) (CInt 3) = Some (CInt 5) \<and> hdr_cap full_two < to_size_t (CInt 5) \<and>
   \<not> avail tight
       (unat (hdr_bytes + to_size_t (CInt 2) + to_size_t (CInt 3) * hdr_item_size full_two)) \<and>
   vec_reserve tight full_two (Sum (CInt 2) (CInt 3)) = Inl (Sigsegv (Some full_two)) \<and>
   hdr_cap three_pairs \<noteq> hdr_len three_pairs \<and>
   \<not> avail tight (unat (hdr_bytes + max (hdr_len three_pairs) 1 * hdr_item_size three_pairs)) \<and>
   vec_shrink tight three_pairs = Inl (Sigsegv (Some three_pairs))"
proof -
  have h1: "\<not> avail tight (unat (hdr_bytes + 4 * 2))"
    by (simp add: tight_def hdr_bytes_def)
  have h2: "\<not> avail tight (unat (hdr_bytes + 8 * 1))"
    by (simp add: tight_def hdr_bytes_def)
  have h3: "\<not> avail tight (unat (vec_total_size full_two))"
    by (simp add: tight_def hdr_bytes_def vec_total_size_def full_two_def)
  have h4: "hdr_len full_two = hdr_cap full_two"
    by (simp add: full_two_def)
  have h5: "\<not> avail tight (unat (new_total_size full_two))"
    by (simp add: tight_def hdr_bytes_def new_total_size_def new_cap_def
        VEC_MAX_PREALLOC_def full_two_def)
  have h6: "0 \<le> cval (CInt 1) \<and> cval (CInt 1) \<le> uint (hdr_len full_two)"
    by (simp add: full_two_def)
  have h7: "hdr_cap full_two < to_size_t (CInt 3)"
    by (simp add: full_two_def)
  have h8: "\<not> avail tight (unat (hdr_bytes + to_size_t (CInt 3) * hdr_item_size full_two))"
    by (simp add: tight_def hdr_bytes_def full_two_def)
  have h9: "hdr_cap three_pairs \<noteq> hdr_len three_pairs"
    by (simp add: three_pairs_def)
  have h10: "\<not> avail tight
               (unat (hdr_bytes + max (hdr_len three_pairs) 1 * hdr_item_size three_pairs))"
    by (simp add: tight_def hdr_bytes_def three_pairs_def)
  have h11: "cadd (CInt 1) (CInt 0) = Some (CInt 1)" by simp
  have h12: "cadd (CInt 2) (CInt 3) = Some (CInt 5)" by simp
  have h13: "hdr_cap full_two < to_size_t (CInt 5)" by (simp add: full_two_def)
  have h14: "\<not> avail tight
       (unat (hdr_bytes + to_size_t (CInt 2) + to_size_t (CInt 3) * hdr_item_size full_two))"
    by (simp add: tight_def hdr_bytes_def full_two_def)
  note a = allocation_failure_is_fatal
             [of tight 4 2 full_two "[3, 0, 0, 0]" "CInt 1" "CInt 1" "CInt 0" "CInt 1"
                 "CInt 3" "CInt 2" "CInt 3" "CInt 5"]
  note b = allocation_failure_is_fatal
             [of tight 8 1 three_pairs "[]" "CInt 0" "CInt 0" "CInt 0" "CInt 0"
                 "CInt 0" "CInt 0" "CInt 0" "CInt 0"]
  from a h1 have c1: "vec_newlen tight 4 2 = Inl (Sigsegv None)" by blast
  from b h2 have c2: "vec_new tight 8 = Inl (Sigsegv None)" by blast
  from a h3 have c3: "vec_dup tight full_two = Inl (Sigsegv (Some full_two))" by blast
  from a h4 h5 have c4: "vec_push tight full_two [3, 0, 0, 0] = Inl (Sigsegv (Some full_two))"
    by blast
  from a h4 h5 h6
  have c5: "vec_insert tight full_two [3, 0, 0, 0] (Atom (CInt 1))
              = Inl (Sigsegv (Some full_two))"
    by blast
  from a h4 h5 h6 h11
  have c8: "vec_insert tight full_two [3, 0, 0, 0] (Sum (CInt 1) (CInt 0))
              = Inl (Sigsegv (Some full_two))"
    by blast
  from a h7 h8
  have c6: "vec_reserve tight full_two (Atom (CInt 3)) = Inl (Sigsegv (Some full_two))"
    by blast
  from a h12 h13 h14
  have c9: "vec_reserve tight full_two (Sum (CInt 2) (CInt 3)) = Inl (Sigsegv (Some full_two))"
    by blast
  from b h9 h10 have c7: "vec_shrink tight three_pairs = Inl (Sigsegv (Some three_pairs))"
    by blast
  show ?thesis
    using h1 h2 h3 h4 h5 h6 h7 h8 h9 h10 h11 h12 h13 h14 c1 c2 c3 c4 c5 c6 c7 c8 c9 by blast
qed

section \<open>Shrinking\<close>

lemma max_len_below_cap:
  assumes "well_formed v" "hdr_cap v \<noteq> hdr_len v"
  shows "max (unat (hdr_len v)) 1 \<le> unat (hdr_cap v)"
proof -
  have "hdr_len v \<le> hdr_cap v" using assms(1) by (simp add: well_formed_def)
  then have "hdr_len v < hdr_cap v" using assms(2) by simp
  then have "unat (hdr_len v) < unat (hdr_cap v)" by (simp add: word_less_nat_alt)
  then show ?thesis by simp
qed

text \<open>
  C7, as stated, fails: \<^verbatim>\<open>vec_newlen(4, 0)\<close> returns a vector of capacity 0 and length 0,
  and \<^verbatim>\<open>vec_shrink\<close> on it skips its body, so the result of the call has capacity 0.
\<close>

theorem shrink_keeps_zero_capacity:
  "vec_newlen generous 4 0 = Inr no_room \<and> hdr_cap no_room = hdr_len no_room \<and>
   vec_shrink generous no_room = Inr no_room \<and> hdr_cap no_room = 0"
  by (simp add: eval_defs vec_shrink_def no_room_def)

text \<open>
  C7, as amended. When the capacity differs from the length, a \<^verbatim>\<open>vec_shrink\<close> that returns leaves
  capacity \<open>max length 1\<close>, which is not zero, and the length and item size as they
  were; on a well-formed vector it does return once the allocator grants the smaller
  block, and the result is well formed and keeps the leading bytes. When the capacity
  equals the length, \<^verbatim>\<open>vec_shrink\<close> returns the vector as it is. So \<^verbatim>\<open>vec_shrink\<close>
  never turns a capacity other than zero into zero.
\<close>

theorem shrink_to_length:
  "(hdr_cap v \<noteq> hdr_len v \<longrightarrow>
      (\<forall>v'. vec_shrink al v = Inr v' \<longrightarrow>
         hdr_cap v' = max (hdr_len v) 1 \<and> hdr_cap v' \<noteq> 0 \<and>
         hdr_len v' = hdr_len v \<and> hdr_item_size v' = hdr_item_size v)) \<and>
   (well_formed v \<and> hdr_cap v \<noteq> hdr_len v \<and>
    avail al (24 + max (unat (hdr_len v)) 1 * unat (hdr_item_size v)) \<longrightarrow>
      (\<exists>v'. vec_shrink al v = Inr v' \<and> well_formed v' \<and>
         mem v' = take (max (unat (hdr_len v)) 1 * unat (hdr_item_size v)) (mem v))) \<and>
   (hdr_cap v = hdr_len v \<longrightarrow> vec_shrink al v = Inr v) \<and>
   (hdr_cap v \<noteq> 0 \<longrightarrow> (\<forall>v'. vec_shrink al v = Inr v' \<longrightarrow> hdr_cap v' \<noteq> 0))"
proof (intro conjI impI allI)
  assume "hdr_cap v = hdr_len v"
  then show "vec_shrink al v = Inr v" by (simp add: vec_shrink_def)
next
  fix v' assume nz: "hdr_cap v \<noteq> 0" and r: "vec_shrink al v = Inr v'"
  show "hdr_cap v' \<noteq> 0"
  proof (cases "hdr_cap v = hdr_len v")
    case True
    then have "v' = v" using r by (simp add: vec_shrink_def)
    then show ?thesis using nz by simp
  next
    case False
    then obtain v1 where "v' = v1\<lparr>hdr_cap := max (hdr_len v) 1\<rparr>"
      using r by (auto simp: vec_shrink_def shrink_target(1) Let_def split: sum.splits)
    then show ?thesis using shrink_target(2) [of "hdr_len v"] by simp
  qed
next
  fix v' assume n: "hdr_cap v \<noteq> hdr_len v" and r: "vec_shrink al v = Inr v'"
  from n r obtain v1
    where g: "resize_block al v (hdr_bytes + max (hdr_len v) 1 * hdr_item_size v) = Inr v1"
      and e: "v' = v1\<lparr>hdr_cap := max (hdr_len v) 1\<rparr>"
    by (auto simp: vec_shrink_def shrink_target(1) Let_def split: sum.splits)
  show "hdr_cap v' = max (hdr_len v) 1" using e by simp
  show "hdr_cap v' \<noteq> 0" using e shrink_target(2) [of "hdr_len v"] by simp
  show "hdr_len v' = hdr_len v" using e resize_block_hdr(2) [OF g] by simp
  show "hdr_item_size v' = hdr_item_size v" using e resize_block_hdr(3) [OF g] by simp
next
  assume a: "well_formed v \<and> hdr_cap v \<noteq> hdr_len v \<and>
             avail al (24 + max (unat (hdr_len v)) 1 * unat (hdr_item_size v))"
  let ?k = "unat (hdr_item_size v)"
  let ?t = "max (unat (hdr_len v)) 1"
  let ?nb = "hdr_bytes + max (hdr_len v) 1 * hdr_item_size v"
  from a have w: "well_formed v" and n: "hdr_cap v \<noteq> hdr_len v" and av: "avail al (24 + ?t * ?k)"
    by simp_all
  have tc: "?t \<le> unat (hdr_cap v)" by (rule max_len_below_cap [OF w n])
  then have le: "?t * ?k \<le> unat (hdr_cap v) * ?k" by (rule mult_le_mono1)
  have w24: "24 + unat (hdr_cap v) * ?k < 2 ^ 64" using w by (simp add: well_formed_def)
  have fit0: "24 + ?t * ?k < 2 ^ 64" using le w24 by linarith
  have fit: "24 + unat (max (hdr_len v) 1) * ?k < 2 ^ 64"
    using fit0 by (simp only: shrink_target(3))
  have u: "unat ?nb = 24 + ?t * ?k"
    using total_fits(1) [OF fit] by (simp add: shrink_target(3))
  have nl: "\<not> ?nb < hdr_bytes" by (rule total_fits(2) [OF fit])
  have short: "?t * ?k \<le> length (mem v)" using le wf_mem_length [OF w] by simp
  let ?v' = "v\<lparr>mem := take (?t * ?k) (mem v), hdr_cap := max (hdr_len v) 1\<rparr>"
  have "resize_block al v ?nb = Inr (v\<lparr>mem := take (?t * ?k) (mem v)\<rparr>)"
    using resize_block_granted [of al ?nb v] av nl u short by simp
  then have r: "vec_shrink al v = Inr ?v'"
    using n by (simp add: vec_shrink_def shrink_target(1) Let_def)
  have "hdr_len v \<le> max (hdr_len v) 1" by simp
  then have well_formed': "well_formed ?v'"
    using short fit0 by (simp add: well_formed_def shrink_target(3) min_absorb2)
  show "\<exists>v'. vec_shrink al v = Inr v' \<and> well_formed v' \<and> mem v' = take (?t * ?k) (mem v)"
    using r well_formed' by (intro exI [of _ ?v']) simp
qed

theorem shrink_to_length_witness:
  "hdr_cap three_pairs \<noteq> hdr_len three_pairs \<and> well_formed three_pairs \<and>
   avail generous (24 + max (unat (hdr_len three_pairs)) 1 * unat (hdr_item_size three_pairs)) \<and>
   (\<exists>v'. vec_shrink generous three_pairs = Inr v' \<and> hdr_cap v' = 3 \<and> hdr_len v' = 3 \<and>
      well_formed v' \<and> mem v' = [1, 2, 3, 4, 5, 6]) \<and>
   hdr_cap full_two = hdr_len full_two \<and> vec_shrink generous full_two = Inr full_two \<and>
   hdr_cap three_pairs \<noteq> 0"
proof -
  have h1: "hdr_cap three_pairs \<noteq> hdr_len three_pairs" by (simp add: three_pairs_def)
  have h2: "well_formed three_pairs" by (simp add: three_pairs_def well_formed_def)
  have h3: "avail generous
              (24 + max (unat (hdr_len three_pairs)) 1 * unat (hdr_item_size three_pairs))"
    by (simp add: generous_def)
  have h4: "hdr_cap full_two = hdr_len full_two" by (simp add: full_two_def)
  note s = shrink_to_length [of three_pairs generous]
  from s h1 h2 h3 obtain v' where r: "vec_shrink generous three_pairs = Inr v'"
    and w: "well_formed v'"
    and m: "mem v' = take (max (unat (hdr_len three_pairs)) 1 * unat (hdr_item_size three_pairs))
                       (mem three_pairs)"
    by blast
  from s h1 r have c: "hdr_cap v' = max (hdr_len three_pairs) 1"
    and l: "hdr_len v' = hdr_len three_pairs" by blast+
  have "hdr_cap v' = 3" using c by (simp add: three_pairs_def)
  moreover have "hdr_len v' = 3" using l by (simp add: three_pairs_def)
  moreover have "mem v' = [1, 2, 3, 4, 5, 6]" using m by (simp add: three_pairs_def)
  moreover from shrink_to_length [of full_two generous] h4
  have "vec_shrink generous full_two = Inr full_two" by blast
  moreover have "hdr_cap three_pairs \<noteq> 0" by (simp add: three_pairs_def)
  ultimately show ?thesis using h1 h2 h3 h4 r w by blast
qed

section \<open>Reserving\<close>

lemma unat_to_size_t: "0 \<le> cval x \<Longrightarrow> unat (to_size_t x) = nat (cval x)"
  using uint_to_size_t [of x] by (simp add: unat_eq_nat_uint)

text \<open>
  What \<^verbatim>\<open>vec_reserve\<close> does for a size written as one operand whose value is not
  negative: with a size of at most the capacity it returns the vector as it is; with a
  larger size, a call that returns leaves the capacity equal to that size and the length
  and item size as they were. On a well-formed vector the call does return once the block
  of that many items fits a \<^verbatim>\<open>size_t\<close> and the allocator grants it, and the old bytes
  are kept.
\<close>

lemma vec_reserve_exact:
  assumes "0 \<le> cval n"
  shows "(cval n \<le> uint (hdr_cap v) \<longrightarrow> vec_reserve al v (Atom n) = Inr v) \<and>
         (uint (hdr_cap v) < cval n \<longrightarrow>
            (\<forall>v'. vec_reserve al v (Atom n) = Inr v' \<longrightarrow>
               uint (hdr_cap v') = cval n \<and> hdr_len v' = hdr_len v \<and>
               hdr_item_size v' = hdr_item_size v)) \<and>
         (well_formed v \<and> uint (hdr_cap v) < cval n \<and>
          24 + nat (cval n) * unat (hdr_item_size v) < 2 ^ 64 \<and>
          avail al (24 + nat (cval n) * unat (hdr_item_size v)) \<longrightarrow>
            (\<exists>v'. vec_reserve al v (Atom n) = Inr v' \<and> well_formed v' \<and>
               take (length (mem v)) (mem v') = mem v))"
proof (intro conjI impI allI)
  assume "cval n \<le> uint (hdr_cap v)"
  then have "\<not> (cast_roundtrip n \<and> hdr_cap v < to_size_t n)"
    using reserve_guard_iff [OF assms, of "hdr_cap v"] by simp
  then show "vec_reserve al v (Atom n) = Inr v"
    unfolding vec_reserve.simps by (rule if_not_P)
next
  fix v' assume b: "uint (hdr_cap v) < cval n" and r: "vec_reserve al v (Atom n) = Inr v'"
  from b have g: "cast_roundtrip n \<and> hdr_cap v < to_size_t n"
    using reserve_guard_iff [OF assms, of "hdr_cap v"] by simp
  from g r obtain v1
    where rb: "resize_block al v (hdr_bytes + to_size_t n * hdr_item_size v) = Inr v1"
      and e: "v' = v1\<lparr>hdr_cap := to_size_t n\<rparr>"
    by (auto simp: vec_reserve.simps split: sum.splits)
  show "uint (hdr_cap v') = cval n" using e uint_to_size_t [OF assms] by simp
  show "hdr_len v' = hdr_len v" using e resize_block_hdr(2) [OF rb] by simp
  show "hdr_item_size v' = hdr_item_size v" using e resize_block_hdr(3) [OF rb] by simp
next
  assume a: "well_formed v \<and> uint (hdr_cap v) < cval n \<and>
             24 + nat (cval n) * unat (hdr_item_size v) < 2 ^ 64 \<and>
             avail al (24 + nat (cval n) * unat (hdr_item_size v))"
  let ?k = "unat (hdr_item_size v)"
  let ?N = "nat (cval n) * ?k"
  let ?nb = "hdr_bytes + to_size_t n * hdr_item_size v"
  from a have w: "well_formed v" and b: "uint (hdr_cap v) < cval n"
    and fit0: "24 + ?N < 2 ^ 64" and av: "avail al (24 + ?N)" by simp_all
  have un: "unat (to_size_t n) = nat (cval n)" by (rule unat_to_size_t [OF assms])
  have g: "cast_roundtrip n \<and> hdr_cap v < to_size_t n"
    using b reserve_guard_iff [OF assms, of "hdr_cap v"] by simp
  have fit: "24 + unat (to_size_t n) * ?k < 2 ^ 64" using fit0 by (simp only: un)
  have u: "unat ?nb = 24 + ?N" using total_fits(1) [OF fit] by (simp only: un)
  have nl: "\<not> ?nb < hdr_bytes" by (rule total_fits(2) [OF fit])
  have "unat (hdr_cap v) < unat (to_size_t n)" using g by (simp add: word_less_nat_alt)
  then have "unat (hdr_cap v) \<le> nat (cval n)" using un by simp
  then have "unat (hdr_cap v) * ?k \<le> ?N" by (rule mult_le_mono1)
  then have long: "length (mem v) \<le> ?N" using wf_mem_length [OF w] by simp
  let ?m' = "mem v @ map (junk al) [length (mem v)..<?N]"
  let ?v' = "v\<lparr>mem := ?m', hdr_cap := to_size_t n\<rparr>"
  have "resize_block al v ?nb = Inr (v\<lparr>mem := ?m'\<rparr>)"
    using resize_block_granted [of al ?nb v] av nl u long by simp
  then have r: "vec_reserve al v (Atom n) = Inr ?v'"
    using g by (simp add: vec_reserve.simps)
  have "hdr_len v \<le> hdr_cap v" using w by (simp add: well_formed_def)
  moreover have "hdr_cap v < to_size_t n" using g by simp
  ultimately have "hdr_len v \<le> to_size_t n" by (simp add: word_le_nat_alt word_less_nat_alt)
  then have well_formed': "well_formed ?v'"
    using long fit0 un by (simp add: well_formed_def)
  show "\<exists>v'. vec_reserve al v (Atom n) = Inr v' \<and> well_formed v' \<and> take (length (mem v)) (mem v') = mem v"
    using r well_formed' by (intro exI [of _ ?v']) simp
qed

text \<open>
  For a size written as a sum the bytes requested are not those of that many items:
  \<^verbatim>\<open>vec_reserve(v, 2 + 3)\<close> on \<^verbatim>\<open>vec_new(4)\<close> sets the capacity to 5 and leaves a block of
  \<open>38 - 24 = 14\<close> item bytes.
\<close>

lemma vec_reserve_sum_short:
  "unat (hdr_bytes + to_size_t (CInt 2) + to_size_t (CInt 3) * hdr_item_size one_room) = 38 \<and>
   vec_reserve generous one_room (Sum (CInt 2) (CInt 3))
     = Inr \<lparr>hdr_cap = 5, hdr_len = 0, hdr_item_size = 4,
            mem = [0, 0, 0, 0, 0, 0, 0, 0, 0, 0, 0, 0, 0, 0]\<rparr>"
  by (simp add: eval_defs one_room_def upt_rec)

text \<open>
  C6 says that \<^verbatim>\<open>vec_reserve\<close> with a size of at most the capacity leaves the vector
  alone. The code with the \<^verbatim>\<open>int\<close> \<^verbatim>\<open>-1\<close>, which is below the capacity 2 of a vector
  of two 4-byte items: both tests of the guard hold on the converted value and the block is
  reallocated to 20 bytes, less than its header. With the \<^verbatim>\<open>long\<close> \<open>- 2 ^ 61\<close> on a
  full vector of two 8-byte items the byte count wraps to the bare header: the call returns
  with capacity \<open>2 ^ 64 - 2 ^ 61\<close> and the two items gone.
\<close>

theorem reserve_below_capacity_reallocates:
  "cval (CInt (- 1)) \<le> uint (hdr_cap full_two) \<and>
   unat (hdr_bytes + to_size_t (CInt (- 1)) * hdr_item_size full_two) = 20 \<and>
   vec_reserve generous full_two (Atom (CInt (- 1))) = Inl (Overrun None) \<and>
   cval (CLong (- (2 ^ 61))) \<le> uint (hdr_cap two_longs) \<and>
   vec_reserve generous two_longs (Atom (CLong (- (2 ^ 61))))
     = Inr \<lparr>hdr_cap = 0xE000000000000000, hdr_len = 2, hdr_item_size = 8, mem = []\<rparr>"
  by (simp add: eval_defs full_two_def two_longs_def two_below_max two_below_big)

section \<open>Appending\<close>

lemma slot_of_prefix:
  assumes "(j + 1) * k \<le> length m"
  shows "slot k (m @ rest) j = slot k m j"
  using assms by (simp add: slot_def)

lemma wf_total_fit: "well_formed v \<Longrightarrow> 24 + unat (hdr_cap v) * unat (hdr_item_size v) < 2 ^ 64"
  by (simp add: well_formed_def)

lemma new_cap_larger:
  assumes "well_formed v" "hdr_cap v \<noteq> 0" "hdr_item_size v \<noteq> 0"
  shows "unat (hdr_cap v) < unat (new_cap v)"
proof (cases "hdr_cap v \<le> VEC_MAX_PREALLOC")
  case True
  have "0 < unat (hdr_cap v)" using assms(2) by (simp add: unat_gt_0)
  then show ?thesis using True double_fits [OF True] by (simp add: new_cap_def)
next
  case False
  have "0 < unat (hdr_item_size v)" using assms(3) by (simp add: unat_gt_0)
  then have "unat (hdr_cap v) * 1 \<le> unat (hdr_cap v) * unat (hdr_item_size v)"
    by (intro mult_le_mono2) simp
  then have "unat (hdr_cap v) \<le> unat (hdr_cap v) * unat (hdr_item_size v)" by simp
  then have "unat (hdr_cap v) < 2 ^ 64 - 1" using wf_total_fit [OF assms(1)] by linarith
  then have "hdr_cap v \<noteq> - 1" using unat_max_size by auto
  then show ?thesis using False succ_fits [of "hdr_cap v"] by (simp add: new_cap_def)
qed

text \<open>What the growth block needs in order to succeed on a full vector.\<close>

lemma vec_grow_makes_room:
  assumes "well_formed v" "hdr_item_size v \<noteq> 0"
    and "hdr_len v = hdr_cap v \<longrightarrow> hdr_cap v \<noteq> 0 \<and>
           24 + unat (new_cap v) * unat (hdr_item_size v) < 2 ^ 64 \<and>
           avail al (24 + unat (new_cap v) * unat (hdr_item_size v))"
  shows "\<exists>v1 rest. vec_grow al v = Inr v1 \<and> well_formed v1 \<and> hdr_len v1 = hdr_len v \<and>
           hdr_item_size v1 = hdr_item_size v \<and> hdr_len v1 < hdr_cap v1 \<and>
           mem v1 = mem v @ rest"
proof (cases "hdr_len v = hdr_cap v")
  case False
  have "hdr_len v \<le> hdr_cap v" using assms(1) by (simp add: well_formed_def)
  then have "hdr_len v < hdr_cap v" using False by simp
  then have "vec_grow al v = Inr v \<and> well_formed v \<and> hdr_len v = hdr_len v \<and>
           hdr_item_size v = hdr_item_size v \<and> hdr_len v < hdr_cap v \<and> mem v = mem v @ []"
    using False assms(1) by (simp add: vec_grow_def)
  then show ?thesis by blast
next
  case True
  let ?k = "unat (hdr_item_size v)"
  let ?N = "unat (new_cap v) * ?k"
  from True assms(3) have nz: "hdr_cap v \<noteq> 0" and fit: "24 + ?N < 2 ^ 64"
    and av: "avail al (24 + ?N)" by simp_all
  have u: "unat (new_total_size v) = 24 + ?N"
    unfolding new_total_size_def by (rule total_fits(1) [OF fit])
  have nl: "\<not> new_total_size v < hdr_bytes"
    unfolding new_total_size_def by (rule total_fits(2) [OF fit])
  have gt: "unat (hdr_cap v) < unat (new_cap v)"
    by (rule new_cap_larger [OF assms(1) nz assms(2)])
  then have "unat (hdr_cap v) * ?k \<le> ?N" by (intro mult_le_mono1) simp
  then have long: "length (mem v) \<le> ?N" using wf_mem_length [OF assms(1)] by simp
  let ?rest = "map (junk al) [length (mem v)..<?N]"
  let ?v1 = "v\<lparr>mem := mem v @ ?rest, hdr_cap := new_cap v\<rparr>"
  have "resize_block al v (new_total_size v) = Inr (v\<lparr>mem := mem v @ ?rest\<rparr>)"
    using resize_block_granted [of al "new_total_size v" v] av nl u long by simp
  then have g: "vec_grow al v = Inr ?v1" using True by (simp add: vec_grow_def)
  have lt: "hdr_len v < new_cap v" using gt True by (simp add: word_less_nat_alt)
  then have "hdr_len v \<le> new_cap v" by simp
  then have w: "well_formed ?v1" using long fit by (simp add: well_formed_def)
  have "vec_grow al v = Inr ?v1 \<and> well_formed ?v1 \<and> hdr_len ?v1 = hdr_len v \<and>
        hdr_item_size ?v1 = hdr_item_size v \<and> hdr_len ?v1 < hdr_cap ?v1 \<and>
        mem ?v1 = mem v @ ?rest"
    using g w lt by simp
  then show ?thesis by blast
qed

lemma store_item_slots:
  assumes "length item = k" "(i + 1) * k \<le> length m"
  shows "mem_write m (i * length item) item = Some (take (i * k) m @ item @ drop (i * k + k) m)"
    and "slot k (take (i * k) m @ item @ drop (i * k + k) m) i = item"
    and "j < i \<Longrightarrow> slot k (take (i * k) m @ item @ drop (i * k + k) m) j = slot k m j"
    and "i < j \<Longrightarrow> slot k (take (i * k) m @ item @ drop (i * k + k) m) j = slot k m j"
    and "length (take (i * k) m @ item @ drop (i * k + k) m) = length m"
proof -
  have b: "i * k + length item \<le> length m" using assms by simp
  show "mem_write m (i * length item) item = Some (take (i * k) m @ item @ drop (i * k + k) m)"
    using b assms(1) by (simp add: mem_write_def)
  have "take k (drop (i * k) (take (i * k) m @ item @ drop (i * k + length item) m))
          = take k (drop (i * k - i * k) item)"
    by (rule write_read_inside [OF b]) (simp_all add: assms(1))
  then show "slot k (take (i * k) m @ item @ drop (i * k + k) m) i = item"
    using assms(1) by (simp add: slot_def)
  show "slot k (take (i * k) m @ item @ drop (i * k + k) m) j = slot k m j" if "j < i"
  proof -
    have "(j + 1) * k \<le> i * k" using that by (intro mult_le_mono1) simp
    then have a: "j * k + k \<le> i * k" by simp
    show ?thesis unfolding slot_def using write_read_before [OF b a] assms(1) by simp
  qed
  show "slot k (take (i * k) m @ item @ drop (i * k + k) m) j = slot k m j" if "i < j"
  proof -
    have "(i + 1) * k \<le> j * k" using that by (intro mult_le_mono1) simp
    then have a: "i * k + length item \<le> j * k" using assms(1) by simp
    show ?thesis unfolding slot_def using write_read_after [OF b a] assms(1) by simp
  qed
  show "length (take (i * k) m @ item @ drop (i * k + k) m) = length m"
    using b assms(1) by simp
qed

text \<open>
  On a well-formed vector whose items are as wide as the header says, \<^verbatim>\<open>vec_push\<close>
  returns a well-formed vector one item longer, with the item in the last slot and the
  earlier slots unchanged; a full vector needs a capacity other than 0 and a granted
  reallocation for that.
\<close>

lemma vec_push_appends:
  assumes "well_formed v" "length item = unat (hdr_item_size v)" "item \<noteq> []"
    and "hdr_len v = hdr_cap v \<longrightarrow> hdr_cap v \<noteq> 0 \<and>
           24 + unat (new_cap v) * unat (hdr_item_size v) < 2 ^ 64 \<and>
           avail al (24 + unat (new_cap v) * unat (hdr_item_size v))"
  shows "\<exists>v'. vec_push al v item = Inr v' \<and> well_formed v' \<and>
           unat (hdr_len v') = unat (hdr_len v) + 1 \<and>
           hdr_item_size v' = hdr_item_size v \<and>
           slot (length item) (mem v') (unat (hdr_len v)) = item \<and>
           (\<forall>j. j < unat (hdr_len v) \<longrightarrow>
              slot (length item) (mem v') j = slot (length item) (mem v) j)"
proof -
  let ?k = "length item"
  let ?n = "unat (hdr_len v)"
  have kz: "hdr_item_size v \<noteq> 0" using assms(2,3) by auto
  from vec_grow_makes_room [OF assms(1) kz assms(4)]
  obtain v1 rest where g: "vec_grow al v = Inr v1" and w1: "well_formed v1"
    and l1: "hdr_len v1 = hdr_len v" and k1: "hdr_item_size v1 = hdr_item_size v"
    and room: "hdr_len v1 < hdr_cap v1" and m1: "mem v1 = mem v @ rest"
    by blast
  have s: "unat (hdr_len v1 + 1) = ?n + 1" using unat_succ_below [OF room] l1 by simp
  have "?n + 1 \<le> unat (hdr_cap v1)" using room l1 by (simp add: word_less_nat_alt)
  then have "(?n + 1) * unat (hdr_item_size v1) \<le> length (mem v1)"
    by (rule wf_prefix_fits(1) [OF w1])
  then have fits: "(?n + 1) * ?k \<le> length (mem v1)" using k1 assms(2) by simp
  let ?m' = "take (?n * ?k) (mem v1) @ item @ drop (?n * ?k + ?k) (mem v1)"
  let ?v' = "v1\<lparr>hdr_len := hdr_len v1 + 1, mem := ?m'\<rparr>"
  note st = store_item_slots [OF refl fits]
  have r: "vec_push al v item = Inr ?v'"
    using g st(1) l1 by (simp add: vec_push_def store_item_def Let_def)
  have "hdr_len v1 + 1 \<le> hdr_cap v1"
    using room s l1 by (simp add: word_le_nat_alt word_less_nat_alt)
  then have w': "well_formed ?v'"
    using w1 st(5) by (simp add: well_formed_def)
  have old: "slot ?k ?m' j = slot ?k (mem v) j" if "j < ?n" for j
  proof -
    have "(j + 1) * unat (hdr_item_size v) \<le> ?n * unat (hdr_item_size v)"
      using that by (intro mult_le_mono1) simp
    also have "\<dots> \<le> length (mem v)"
      by (rule wf_prefix_fits(1) [OF assms(1) wf_len_le_cap [OF assms(1)]])
    finally have "(j + 1) * ?k \<le> length (mem v)" using assms(2) by simp
    then have "slot ?k (mem v1) j = slot ?k (mem v) j"
      unfolding m1 by (rule slot_of_prefix)
    then show ?thesis using st(3) [OF that] by simp
  qed
  have "vec_push al v item = Inr ?v' \<and> well_formed ?v' \<and>
        unat (hdr_len ?v') = ?n + 1 \<and> hdr_item_size ?v' = hdr_item_size v \<and>
        slot ?k (mem ?v') ?n = item \<and>
        (\<forall>j. j < ?n \<longrightarrow> slot ?k (mem ?v') j = slot ?k (mem v) j)"
    using r w' s k1 st(2) old by simp
  then show ?thesis by blast
qed

lemma vec_push_cap:
  assumes "vec_push al v item = Inr v'"
  shows "hdr_cap v' = (if hdr_len v = hdr_cap v then new_cap v else hdr_cap v)"
proof -
  from assms obtain v1 where g: "vec_grow al v = Inr v1" and c: "hdr_cap v' = hdr_cap v1"
    by (rule vec_push_hdr)
  show ?thesis
  proof (cases "hdr_len v = hdr_cap v")
    case True
    then show ?thesis using c vec_grow_cap(1) [OF True g] by simp
  next
    case False
    then have "v1 = v" using g by (simp add: vec_grow_def)
    then show ?thesis using c False by simp
  qed
qed

lemma new_cap_at_most_double:
  assumes "well_formed v" "hdr_cap v \<noteq> 0" "hdr_item_size v \<noteq> 0"
  shows "unat (new_cap v) \<le> 2 * unat (hdr_cap v)"
proof (cases "hdr_cap v \<le> VEC_MAX_PREALLOC")
  case True
  then show ?thesis using double_fits [OF True] by (simp add: new_cap_def)
next
  case False
  have pos: "0 < unat (hdr_cap v)" using assms(2) by (simp add: unat_gt_0)
  have "0 < unat (hdr_item_size v)" using assms(3) by (simp add: unat_gt_0)
  then have "unat (hdr_cap v) * 1 \<le> unat (hdr_cap v) * unat (hdr_item_size v)"
    by (intro mult_le_mono2) simp
  then have "unat (hdr_cap v) \<le> unat (hdr_cap v) * unat (hdr_item_size v)" by simp
  then have "unat (hdr_cap v) < 2 ^ 64 - 1" using wf_total_fit [OF assms(1)] by linarith
  then have "hdr_cap v \<noteq> - 1" using unat_max_size by auto
  then have "unat (hdr_cap v + 1) = unat (hdr_cap v) + 1" by (rule succ_fits)
  then show ?thesis using False pos by (simp add: new_cap_def)
qed

text \<open>
  Appending \<open>N\<close> items to a well-formed vector of capacity at least 1 gives a
  well-formed vector \<open>N\<close> items longer, so its length is at most its capacity, as
  long as every block of up to \<open>B\<close> items fits a \<^verbatim>\<open>size_t\<close> and is granted, where
  \<open>B\<close> bounds the old capacity and twice the final length.
\<close>

lemma vec_push_all_appends:
  assumes "well_formed v" "hdr_cap v \<noteq> 0" "hdr_item_size v \<noteq> 0"
    and "\<forall>item \<in> set items. length item = unat (hdr_item_size v)"
    and "\<forall>c. c \<le> B \<longrightarrow> 24 + c * unat (hdr_item_size v) < 2 ^ 64 \<and>
                            avail al (24 + c * unat (hdr_item_size v))"
    and "unat (hdr_cap v) \<le> B" "2 * (unat (hdr_len v) + length items) \<le> B"
  shows "\<exists>v'. vec_push_all al v items = Inr v' \<and> well_formed v' \<and>
           unat (hdr_len v') = unat (hdr_len v) + length items \<and>
           hdr_len v' \<le> hdr_cap v'"
  using assms
proof (induction items arbitrary: v)
  case Nil
  then show ?case by (simp add: well_formed_def)
next
  case (Cons item items)
  let ?k = "unat (hdr_item_size v)"
  have li: "length item = ?k" using Cons.prems(4) by simp
  have "0 < ?k" using Cons.prems(3) by (simp add: unat_gt_0)
  then have ne: "item \<noteq> []" using li by auto
  have nc2: "unat (new_cap v) \<le> 2 * unat (hdr_cap v)"
    by (rule new_cap_at_most_double [OF Cons.prems(1,2,3)])
  have full: "unat (new_cap v) \<le> B" if "hdr_len v = hdr_cap v"
    using that nc2 Cons.prems(7) by simp
  have room: "hdr_len v = hdr_cap v \<longrightarrow> hdr_cap v \<noteq> 0 \<and>
           24 + unat (new_cap v) * ?k < 2 ^ 64 \<and> avail al (24 + unat (new_cap v) * ?k)"
    using full Cons.prems(2,5) by blast
  from vec_push_appends [OF Cons.prems(1) li ne room]
  obtain v1 where p: "vec_push al v item = Inr v1" and w1: "well_formed v1"
    and l1: "unat (hdr_len v1) = unat (hdr_len v) + 1"
    and k1: "hdr_item_size v1 = hdr_item_size v"
    by blast
  have c1: "hdr_cap v1 = (if hdr_len v = hdr_cap v then new_cap v else hdr_cap v)"
    by (rule vec_push_cap [OF p])
  have "unat (hdr_cap v) < unat (new_cap v)"
    by (rule new_cap_larger [OF Cons.prems(1,2,3)])
  then have "new_cap v \<noteq> 0" by (auto simp: unat_gt_0 [symmetric])
  then have nz1: "hdr_cap v1 \<noteq> 0" using c1 Cons.prems(2) by simp
  have cb: "unat (hdr_cap v1) \<le> B" using c1 full Cons.prems(6) by simp
  have lb: "2 * (unat (hdr_len v1) + length items) \<le> B" using l1 Cons.prems(7) by simp
  have it: "\<forall>item \<in> set items. length item = unat (hdr_item_size v1)"
    using Cons.prems(4) k1 by simp
  have res: "\<forall>c. c \<le> B \<longrightarrow> 24 + c * unat (hdr_item_size v1) < 2 ^ 64 \<and>
                            avail al (24 + c * unat (hdr_item_size v1))"
    using Cons.prems(5) k1 by simp
  have kz1: "hdr_item_size v1 \<noteq> 0" using k1 Cons.prems(3) by simp
  from Cons.IH [OF w1 nz1 kz1 it res cb lb]
  obtain v' where "vec_push_all al v1 items = Inr v'" "well_formed v'"
    "unat (hdr_len v') = unat (hdr_len v1) + length items" "hdr_len v' \<le> hdr_cap v'"
    by blast
  then have "vec_push_all al v (item # items) = Inr v' \<and> well_formed v' \<and>
        unat (hdr_len v') = unat (hdr_len v) + length (item # items) \<and>
        hdr_len v' \<le> hdr_cap v'"
    using p l1 by simp
  then show ?case by blast
qed

section \<open>The growth policy\<close>

text \<open>
  C1. When \<^verbatim>\<open>vec_push\<close>, or \<^verbatim>\<open>vec_insert\<close> with an index from 0 to the length, is
  called on a vector whose length equals its capacity and returns, the capacity of the
  result is the old capacity times 2 if the old capacity is at most
  \<^verbatim>\<open>VEC_MAX_PREALLOC\<close> (1024 * 1024), and the old capacity plus 1 otherwise. Both are
  \<^verbatim>\<open>size_t\<close> computations: the doubling never wraps, the increment wraps only at the
  largest \<^verbatim>\<open>size_t\<close> value. The index of \<^verbatim>\<open>vec_insert\<close> is one operand or a sum
  \<^verbatim>\<open>a + b\<close>.
\<close>

theorem growth_capacity:
  assumes "hdr_len v = hdr_cap v"
  shows "(\<forall>v'. vec_push al v item = Inr v' \<longrightarrow>
            hdr_cap v' = (if hdr_cap v \<le> VEC_MAX_PREALLOC then hdr_cap v * 2 else hdr_cap v + 1)) \<and>
         (\<forall>v'. 0 \<le> cval index \<and> cval index \<le> uint (hdr_len v) \<and>
               vec_insert al v item (Atom index) = Inr v' \<longrightarrow>
            hdr_cap v' = (if hdr_cap v \<le> VEC_MAX_PREALLOC then hdr_cap v * 2 else hdr_cap v + 1)) \<and>
         (\<forall>v'. cadd a b = Some s \<and> 0 \<le> cval s \<and> cval s \<le> uint (hdr_len v) \<and>
               vec_insert al v item (Sum a b) = Inr v' \<longrightarrow>
            hdr_cap v' = (if hdr_cap v \<le> VEC_MAX_PREALLOC then hdr_cap v * 2 else hdr_cap v + 1)) \<and>
         (hdr_cap v \<le> VEC_MAX_PREALLOC \<longrightarrow> unat (hdr_cap v * 2) = unat (hdr_cap v) * 2) \<and>
         (\<not> hdr_cap v \<le> VEC_MAX_PREALLOC \<and> hdr_cap v \<noteq> - 1 \<longrightarrow>
            unat (hdr_cap v + 1) = unat (hdr_cap v) + 1)"
proof (intro conjI allI impI)
  fix v' assume "vec_push al v item = Inr v'"
  then obtain v1 where "vec_grow al v = Inr v1" "hdr_cap v' = hdr_cap v1"
    by (rule vec_push_hdr)
  then show "hdr_cap v' = (if hdr_cap v \<le> VEC_MAX_PREALLOC then hdr_cap v * 2 else hdr_cap v + 1)"
    using vec_grow_cap(1) [OF assms] by (simp add: new_cap_def)
next
  fix v' assume a: "0 \<le> cval index \<and> cval index \<le> uint (hdr_len v) \<and>
                    vec_insert al v item (Atom index) = Inr v'"
  have "mval (Atom index) = Some index" by simp
  with a obtain v1 where "vec_grow al v = Inr v1" "hdr_cap v' = hdr_cap v1"
    using vec_insert_hdr [of al v item "Atom index" v' index] by blast
  then show "hdr_cap v' = (if hdr_cap v \<le> VEC_MAX_PREALLOC then hdr_cap v * 2 else hdr_cap v + 1)"
    using vec_grow_cap(1) [OF assms] by (simp add: new_cap_def)
next
  fix v' assume a: "cadd a b = Some s \<and> 0 \<le> cval s \<and> cval s \<le> uint (hdr_len v) \<and>
                    vec_insert al v item (Sum a b) = Inr v'"
  then have "mval (Sum a b) = Some s" by simp
  with a obtain v1 where "vec_grow al v = Inr v1" "hdr_cap v' = hdr_cap v1"
    using vec_insert_hdr [of al v item "Sum a b" v' s] by blast
  then show "hdr_cap v' = (if hdr_cap v \<le> VEC_MAX_PREALLOC then hdr_cap v * 2 else hdr_cap v + 1)"
    using vec_grow_cap(1) [OF assms] by (simp add: new_cap_def)
next
  assume "hdr_cap v \<le> VEC_MAX_PREALLOC"
  then show "unat (hdr_cap v * 2) = unat (hdr_cap v) * 2" by (rule double_fits)
next
  assume "\<not> hdr_cap v \<le> VEC_MAX_PREALLOC \<and> hdr_cap v \<noteq> - 1"
  then show "unat (hdr_cap v + 1) = unat (hdr_cap v) + 1" using succ_fits by blast
qed

lemma push_full_two:
  "vec_push generous full_two [3, 0, 0, 0]
     = Inr \<lparr>hdr_cap = 4, hdr_len = 3, hdr_item_size = 4,
            mem = [1, 0, 0, 0, 2, 0, 0, 0, 3, 0, 0, 0, 0, 0, 0, 0]\<rparr>"
  by (simp add: vec_push_def vec_grow_def resize_block_def store_item_def mem_write_def
      new_total_size_def new_cap_def hdr_bytes_def VEC_MAX_PREALLOC_def generous_def full_two_def
      Let_def upt_rec)

lemma insert_full_two:
  "vec_insert generous full_two [3, 0, 0, 0] (Atom (CInt 1))
     = Inr \<lparr>hdr_cap = 4, hdr_len = 3, hdr_item_size = 4,
            mem = [1, 0, 0, 0, 3, 0, 0, 0, 2, 0, 0, 0, 0, 0, 0, 0]\<rparr>"
  by (simp add: vec_insert.simps vec_grow_def resize_block_def store_item_def mem_write_def
      mem_read_def memmove_def cast_roundtrip_def
      new_total_size_def new_cap_def hdr_bytes_def VEC_MAX_PREALLOC_def generous_def full_two_def
      Let_def upt_rec)

lemma insert_sum_full_two:
  "vec_insert generous full_two [3, 0, 0, 0] (Sum (CInt 1) (CInt 0))
     = Inr \<lparr>hdr_cap = 4, hdr_len = 3, hdr_item_size = 4,
            mem = [1, 0, 0, 0, 3, 0, 0, 0, 0, 0, 0, 2, 0, 0, 0, 0]\<rparr>"
  by (simp add: eval_defs full_two_def upt_rec)

lemma big_bytes_facts:
  "well_formed big_bytes" "hdr_len big_bytes = hdr_cap big_bytes"
  "\<not> hdr_cap big_bytes \<le> VEC_MAX_PREALLOC" "hdr_cap big_bytes + 1 = 1048578"
  "hdr_cap big_bytes \<noteq> 0" "unat (hdr_item_size big_bytes) = 1"
  "unat (new_cap big_bytes) = 1048578"
  by (simp_all add: big_bytes_def well_formed_def new_cap_def VEC_MAX_PREALLOC_def)

lemma push_big_bytes: "\<exists>v'. vec_push generous big_bytes [7] = Inr v'"
proof -
  have "length [7 :: byte] = unat (hdr_item_size big_bytes)"
    by (simp add: big_bytes_facts)
  moreover have "hdr_len big_bytes = hdr_cap big_bytes \<longrightarrow> hdr_cap big_bytes \<noteq> 0 \<and>
           24 + unat (new_cap big_bytes) * unat (hdr_item_size big_bytes) < 2 ^ 64 \<and>
           avail generous (24 + unat (new_cap big_bytes) * unat (hdr_item_size big_bytes))"
    by (simp add: big_bytes_facts generous_def)
  ultimately show ?thesis
    using vec_push_appends [OF big_bytes_facts(1), of "[7]" generous] by blast
qed

theorem growth_capacity_witness:
  "hdr_len full_two = hdr_cap full_two \<and>
   (\<exists>v'. vec_push generous full_two [3, 0, 0, 0] = Inr v' \<and> hdr_cap v' = 4) \<and>
   (\<exists>v'. vec_insert generous full_two [3, 0, 0, 0] (Atom (CInt 1)) = Inr v' \<and>
      hdr_cap v' = 4) \<and>
   cadd (CInt 1) (CInt 0) = Some (CInt 1) \<and>
   (\<exists>v'. vec_insert generous full_two [3, 0, 0, 0] (Sum (CInt 1) (CInt 0)) = Inr v' \<and>
      hdr_cap v' = 4) \<and>
   hdr_len big_bytes = hdr_cap big_bytes \<and>
   (\<exists>v'. vec_push generous big_bytes [7] = Inr v' \<and> hdr_cap v' = 1048578)"
proof -
  have h: "hdr_len full_two = hdr_cap full_two" by (simp add: full_two_def)
  have c: "hdr_cap full_two \<le> VEC_MAX_PREALLOC" "hdr_cap full_two * 2 = 4"
    by (simp_all add: full_two_def VEC_MAX_PREALLOC_def)
  have i: "0 \<le> cval (CInt 1) \<and> cval (CInt 1) \<le> uint (hdr_len full_two)"
    by (simp add: full_two_def)
  have e: "cadd (CInt 1) (CInt 0) = Some (CInt 1)" by simp
  note g = growth_capacity [OF h, of generous "[3, 0, 0, 0]" "CInt 1" "CInt 1" "CInt 0" "CInt 1"]
  obtain v' where p: "vec_push generous full_two [3, 0, 0, 0] = Inr v'"
    using push_full_two by blast
  obtain v'' where q: "vec_insert generous full_two [3, 0, 0, 0] (Atom (CInt 1)) = Inr v''"
    using insert_full_two by blast
  obtain u where r: "vec_insert generous full_two [3, 0, 0, 0] (Sum (CInt 1) (CInt 0)) = Inr u"
    using insert_sum_full_two by blast
  obtain w where b: "vec_push generous big_bytes [7] = Inr w"
    using push_big_bytes by blast
  note g' = growth_capacity
              [OF big_bytes_facts(2), of generous "[7]" "CInt 0" "CInt 0" "CInt 0" "CInt 0"]
  from g p c have "hdr_cap v' = 4" by metis
  moreover from g q i c have "hdr_cap v'' = 4" by metis
  moreover from g r i e c have "hdr_cap u = 4" by metis
  moreover from g' b big_bytes_facts(3,4) have "hdr_cap w = 1048578" by metis
  ultimately show ?thesis using h p q r e b big_bytes_facts(2) by blast
qed

subsection \<open>A vector created without room\<close>

text \<open>
  C2 says that the length never exceeds the capacity, whatever the initial capacity. The
  code at an initial capacity of 0: \<^verbatim>\<open>vec_newlen(4, 0)\<close> returns a vector with no room, and
  \<^verbatim>\<open>vec_push\<close> on it doubles capacity 0 to 0, raises the length to 1 and then stores the
  item outside the block.
\<close>

theorem push_without_room:
  "vec_newlen generous 4 0 = Inr no_room \<and>
   vec_push generous no_room [10, 0, 0, 0]
     = Inl (Overrun (Some \<lparr>hdr_cap = 0, hdr_len = 1, hdr_item_size = 4, mem = []\<rparr>))"
  by (simp add: eval_defs no_room_def)

section \<open>Inserting\<close>

lemma sint_succ32:
  fixes w :: "32 word"
  assumes "w \<noteq> 0x7FFFFFFF"
  shows "sint (w + 1) = sint w + 1"
proof -
  have "sint w \<noteq> 2147483647"
  proof
    assume "sint w = 2147483647"
    then have "of_int (sint w) = (of_int 2147483647 :: 32 word)" by simp
    then show False using assms by simp
  qed
  moreover have "sint w < 2 ^ (LENGTH(32) - 1)" by (rule sint_lt)
  ultimately have hi: "sint w + 1 < 2 ^ 31" by simp
  have "- (2 ^ (LENGTH(32) - 1)) \<le> sint w" by (rule sint_ge)
  then have lo: "- (2 ^ 31) \<le> sint w + 1" by simp
  have "sint (w + 1) = signed_take_bit (LENGTH(32) - 1) (sint w + sint (1 :: 32 word))"
    by (rule sint_word_ariths(1))
  also have "\<dots> = signed_take_bit 31 (sint w + 1)" by simp
  also have "\<dots> = sint w + 1" by (rule signed_take_bit_int_eq_self [OF lo hi])
  finally show ?thesis .
qed

lemma sint_succ64:
  fixes w :: "64 word"
  assumes "w \<noteq> 0x7FFFFFFFFFFFFFFF"
  shows "sint (w + 1) = sint w + 1"
proof -
  have "sint w \<noteq> 9223372036854775807"
  proof
    assume "sint w = 9223372036854775807"
    then have "of_int (sint w) = (of_int 9223372036854775807 :: 64 word)" by simp
    then show False using assms by simp
  qed
  moreover have "sint w < 2 ^ (LENGTH(64) - 1)" by (rule sint_lt)
  ultimately have hi: "sint w + 1 < 2 ^ 63" by simp
  have "- (2 ^ (LENGTH(64) - 1)) \<le> sint w" by (rule sint_ge)
  then have lo: "- (2 ^ 63) \<le> sint w + 1" by simp
  have "sint (w + 1) = signed_take_bit (LENGTH(64) - 1) (sint w + sint (1 :: 64 word))"
    by (rule sint_word_ariths(1))
  also have "\<dots> = signed_take_bit 63 (sint w + 1)" by simp
  also have "\<dots> = sint w + 1" by (rule signed_take_bit_int_eq_self [OF lo hi])
  finally show ?thesis .
qed


lemma uint_succ:
  fixes w :: size_t
  assumes "uint w < 2 ^ 64 - 1"
  shows "uint (w + 1) = uint w + 1"
proof -
  have "w \<noteq> - 1"
  proof
    assume "w = - 1"
    then have "unat w = 2 ^ 64 - 1" by (simp only: unat_max_size)
    then have "uint w = 2 ^ 64 - 1" by (simp only: uint_nat) simp
    then show False using assms by simp
  qed
  then have "unat (w + 1) = unat w + 1" by (rule succ_fits)
  then have "int (unat (w + 1)) = int (unat w) + 1" by simp
  then show ?thesis by (simp only: uint_nat)
qed

lemma plus_one_val:
  assumes "plus_one x = Some y" "cval x < 2 ^ 64 - 1" 
  shows "cval y = cval x + 1"
proof (cases x)
  case (CInt w)
  then have "plus_one (CInt w) = Some y" using assms(1) by simp
  then have n: "w \<noteq> 0x7FFFFFFF" and y: "y = CInt (w + 1)"
    by (simp_all split: if_splits)
  have "sint (w + 1) = sint w + 1" by (rule sint_succ32 [OF n])
  then show ?thesis by (simp only: CInt y cval.simps)
next
  case (CLong w)
  then have "plus_one (CLong w) = Some y" using assms(1) by simp
  then have n: "w \<noteq> 0x7FFFFFFFFFFFFFFF" and y: "y = CLong (w + 1)"
    by (simp_all split: if_splits)
  have "sint (w + 1) = sint w + 1" by (rule sint_succ64 [OF n])
  then show ?thesis by (simp only: CLong y cval.simps)
next
  case (CSizeT w)
  then have y: "y = CSizeT (w + 1)" using assms(1) by simp
  have "uint w < 2 ^ 64 - 1" using assms(2) by (simp only: CSizeT cval.simps)
  then have "uint (w + 1) = uint w + 1" by (rule uint_succ)
  then show ?thesis by (simp only: CSizeT y cval.simps)
qed

lemma gap_bytes:
  fixes i n k :: nat
  assumes "i \<le> n"
  shows "i * k + k * (n - i) = n * k"
proof -
  obtain d where "n = i + d" using assms by (auto simp: le_iff_add)
  then show ?thesis by (simp add: algebra_simps)
qed

lemma moved_right_length:
  assumes "i \<le> n" "(n + 1) * k \<le> length m"
  shows "length (take (k * (n - i)) (drop (i * k) m)) = k * (n - i)"
proof -
  have "n * k \<le> (n + 1) * k" by simp
  then have "i * k + k * (n - i) \<le> length m"
    using gap_bytes [OF assms(1), of k] assms(2) by simp
  then show ?thesis by simp
qed

lemma insert_memmove:
  assumes "i \<le> n" "(n + 1) * k \<le> length m"
  shows "memmove m ((i + 1) * k) (i * k) (k * (n - i))
           = Some (take ((i + 1) * k) m @ take (k * (n - i)) (drop (i * k) m)
                     @ drop ((i + 1) * k + k * (n - i)) m)"
proof -
  have e: "i * k + k * (n - i) = n * k" by (rule gap_bytes [OF assms(1)])
  have "n * k \<le> (n + 1) * k" by simp
  then have src: "i * k + k * (n - i) \<le> length m" using e assms(2) by simp
  have "(i + 1) * k + k * (n - i) = (n + 1) * k" using e by (simp add: algebra_simps)
  then have dst: "(i + 1) * k + k * (n - i) \<le> length m" using assms(2) by simp
  show ?thesis
    using src dst moved_right_length [OF assms]
    by (simp add: memmove_def mem_read_def mem_write_def)
qed

lemma insert_shifted:
  assumes "i \<le> n" "(n + 1) * k \<le> length m"
  defines "sh \<equiv> take ((i + 1) * k) m @ take (k * (n - i)) (drop (i * k) m)
                   @ drop ((i + 1) * k + k * (n - i)) m"
  shows "length sh = length m"
    and "j < i \<Longrightarrow> slot k sh j = slot k m j"
    and "i \<le> j \<Longrightarrow> j < n \<Longrightarrow> slot k sh (j + 1) = slot k m j"
proof -
  let ?bs = "take (k * (n - i)) (drop (i * k) m)"
  have l: "length ?bs = k * (n - i)" by (rule moved_right_length [OF assms(1,2)])
  have e: "i * k + k * (n - i) = n * k" by (rule gap_bytes [OF assms(1)])
  then have e': "(i + 1) * k + k * (n - i) = (n + 1) * k" by (simp add: algebra_simps)
  have b: "(i + 1) * k + length ?bs \<le> length m" using l e' assms(2) by simp
  have sh: "sh = take ((i + 1) * k) m @ ?bs @ drop ((i + 1) * k + length ?bs) m"
    unfolding sh_def using l by simp
  show "length sh = length m" unfolding sh using b by simp
  show "slot k sh j = slot k m j" if "j < i"
  proof -
    have "(j + 1) * k \<le> (i + 1) * k" using that by (intro mult_le_mono1) simp
    then have a: "j * k + k \<le> (i + 1) * k" by simp
    show ?thesis unfolding slot_def sh by (rule write_read_before [OF b a])
  qed
  show "slot k sh (j + 1) = slot k m j" if ij: "i \<le> j" and jn: "j < n"
  proof -
    obtain d where d: "j = i + d" using ij by (auto simp: le_iff_add)
    have lo: "(i + 1) * k \<le> (j + 1) * k" using ij by (intro mult_le_mono1) simp
    have "d + 1 \<le> n - i" using jn d by simp
    then have "(d + 1) * k \<le> (n - i) * k" by (rule mult_le_mono1)
    then have inner: "d * k + k \<le> k * (n - i)" by (simp add: algebra_simps)
    then have hi: "(j + 1) * k + k \<le> (i + 1) * k + length ?bs"
      using l d by (simp add: algebra_simps)
    have "take k (drop ((j + 1) * k) sh) = take k (drop ((j + 1) * k - (i + 1) * k) ?bs)"
      unfolding sh by (rule write_read_inside [OF b lo hi])
    also have "(j + 1) * k - (i + 1) * k = d * k" using d by (simp add: algebra_simps)
    also have "take k (drop (d * k) ?bs) = take k (drop (d * k) (drop (i * k) m))"
      by (rule read_of_take [OF inner])
    also have "\<dots> = take k (drop (j * k) m)" using d by (simp add: algebra_simps)
    finally show ?thesis unfolding slot_def .
  qed
qed

text \<open>
  Under the same conditions, for an index written as one operand, and when
  \<^verbatim>\<open>index + 1\<close> does not overflow the type of the index, \<^verbatim>\<open>vec_insert\<close> at an index
  from 0 to the length returns a well-formed vector
  one item longer: the item sits in slot \<open>index\<close>, the slots before it are unchanged and
  every old slot from \<open>index\<close> on has moved one place to the right.
\<close>

lemma vec_insert_shifts_right:
  assumes "well_formed v" "length item = unat (hdr_item_size v)" "item \<noteq> []"
    and "0 \<le> cval index" "cval index \<le> uint (hdr_len v)" "plus_one index \<noteq> None"
    and "hdr_len v = hdr_cap v \<longrightarrow> hdr_cap v \<noteq> 0 \<and>
           24 + unat (new_cap v) * unat (hdr_item_size v) < 2 ^ 64 \<and>
           avail al (24 + unat (new_cap v) * unat (hdr_item_size v))"
  shows "\<exists>v'. vec_insert al v item (Atom index) = Inr v' \<and> well_formed v' \<and>
           unat (hdr_len v') = unat (hdr_len v) + 1 \<and>
           hdr_item_size v' = hdr_item_size v \<and>
           slot (length item) (mem v') (nat (cval index)) = item \<and>
           (\<forall>j. j < nat (cval index) \<longrightarrow>
              slot (length item) (mem v') j = slot (length item) (mem v) j) \<and>
           (\<forall>j. nat (cval index) \<le> j \<and> j < unat (hdr_len v) \<longrightarrow>
              slot (length item) (mem v') (j + 1) = slot (length item) (mem v) j)"
proof -
  let ?k = "length item"
  let ?n = "unat (hdr_len v)"
  let ?i = "nat (cval index)"
  have kz: "hdr_item_size v \<noteq> 0" using assms(2,3) by auto
  have guard: "cast_roundtrip index \<and> ge_zero index \<and> to_size_t index \<le> hdr_len v"
    using assms(4,5) insert_guard_iff [of index "hdr_len v"] by blast
  from vec_grow_makes_room [OF assms(1) kz assms(7)]
  obtain v1 rest where g: "vec_grow al v = Inr v1" and w1: "well_formed v1"
    and l1: "hdr_len v1 = hdr_len v" and k1: "hdr_item_size v1 = hdr_item_size v"
    and room: "hdr_len v1 < hdr_cap v1" and m1: "mem v1 = mem v @ rest"
    by blast
  have k1': "unat (hdr_item_size v1) = ?k" using k1 assms(2) by simp
  have s: "unat (hdr_len v1 + 1) = ?n + 1" using unat_succ_below [OF room] l1 by simp
  have nc: "?n + 1 \<le> unat (hdr_cap v1)" using room l1 by (simp add: word_less_nat_alt)
  have fits: "(?n + 1) * ?k \<le> length (mem v1)"
    using wf_prefix_fits(1) [OF w1 nc] k1' by simp
  have un: "unat (to_size_t index) = ?i" by (rule unat_to_size_t [OF assms(4)])
  have "int ?n = uint (hdr_len v)" by (simp only: uint_nat)
  then have i_le: "?i \<le> ?n" using assms(4,5) by linarith
  obtain index1 where p: "plus_one index = Some index1" using assms(6) by blast
  have "uint (hdr_len v) < uint (hdr_cap v1)" using room l1 by (simp add: word_less_def)
  moreover have "uint (hdr_cap v1) < 2 ^ 64" using uint_lt2p [of "hdr_cap v1"] by simp
  ultimately have "cval index < 2 ^ 64 - 1" using assms(5) by linarith
  then have v1': "cval index1 = cval index + 1" by (rule plus_one_val [OF p])
  then have "0 \<le> cval index1" using assms(4) by simp
  then have "unat (to_size_t index1) = nat (cval index1)" by (rule unat_to_size_t)
  then have un1: "unat (to_size_t index1) = ?i + 1" using v1' assms(4) by (simp add: nat_add_distrib)
  \<comment> \<open>the three byte counts of the move\<close>
  have "?i + 1 \<le> unat (hdr_cap v1)" using i_le nc by simp
  then have "(?i + 1) * unat (hdr_item_size v1) < 2 ^ 64" by (rule wf_prefix_fits(2) [OF w1])
  then have "unat (to_size_t index1) * unat (hdr_item_size v1) < 2 ^ 64" by (simp only: un1)
  then have "unat (to_size_t index1 * hdr_item_size v1)
               = unat (to_size_t index1) * unat (hdr_item_size v1)" by (rule unat_mult_fits)
  then have dst: "unat (to_size_t index1 * hdr_item_size v1) = (?i + 1) * ?k"
    by (simp only: un1 k1')
  have "?i \<le> unat (hdr_cap v1)" using i_le nc by simp
  then have "?i * unat (hdr_item_size v1) < 2 ^ 64" by (rule wf_prefix_fits(2) [OF w1])
  then have "unat (to_size_t index) * unat (hdr_item_size v1) < 2 ^ 64" by (simp only: un)
  then have "unat (to_size_t index * hdr_item_size v1)
               = unat (to_size_t index) * unat (hdr_item_size v1)" by (rule unat_mult_fits)
  then have src: "unat (to_size_t index * hdr_item_size v1) = ?i * ?k"
    by (simp only: un k1')
  have "to_size_t index \<le> hdr_len v1" using guard l1 by simp
  then have d: "unat (hdr_len v1 - to_size_t index) = ?n - ?i"
    using un l1 by (simp add: unat_sub)
  have "?n - ?i \<le> unat (hdr_cap v1)" using nc by simp
  then have "(?n - ?i) * unat (hdr_item_size v1) < 2 ^ 64" by (rule wf_prefix_fits(2) [OF w1])
  then have "unat (hdr_item_size v1) * unat (hdr_len v1 - to_size_t index) < 2 ^ 64"
    using d by (simp add: mult.commute)
  then have "unat (hdr_item_size v1 * (hdr_len v1 - to_size_t index))
               = unat (hdr_item_size v1) * unat (hdr_len v1 - to_size_t index)"
    by (rule unat_mult_fits)
  then have cnt: "unat (hdr_item_size v1 * (hdr_len v1 - to_size_t index)) = ?k * (?n - ?i)"
    by (simp only: d k1')
  \<comment> \<open>the move and the store\<close>
  define sh where "sh = take ((?i + 1) * ?k) (mem v1)
               @ take (?k * (?n - ?i)) (drop (?i * ?k) (mem v1))
               @ drop ((?i + 1) * ?k + ?k * (?n - ?i)) (mem v1)"
  have mv: "memmove (mem v1) ((?i + 1) * ?k) (?i * ?k) (?k * (?n - ?i)) = Some sh"
    unfolding sh_def by (rule insert_memmove [OF i_le fits])
  note shp = insert_shifted [OF i_le fits, folded sh_def]
  have "(?i + 1) * ?k \<le> (?n + 1) * ?k" using i_le by (intro mult_le_mono1) simp
  then have "(?i + 1) * ?k \<le> length (mem v1)" using fits by (rule order_trans)
  then have fits_sh: "(?i + 1) * ?k \<le> length sh" by (simp only: shp(1))
  define m' where "m' = take (?i * ?k) sh @ item @ drop (?i * ?k + ?k) sh"
  note st = store_item_slots [OF refl fits_sh, folded m'_def]
  let ?v2 = "v1\<lparr>hdr_len := hdr_len v1 + 1\<rparr>"
  let ?v' = "v1\<lparr>hdr_len := hdr_len v1 + 1, mem := m'\<rparr>"
  have mv2: "memmove (mem ?v2)
               (unat (to_size_t index1 * hdr_item_size ?v2))
               (unat (to_size_t index * hdr_item_size ?v2))
               (unat (hdr_item_size ?v2 * ((hdr_len ?v2 - 1) - to_size_t index))) = Some sh"
    using mv dst src cnt by simp
  have st2: "store_item (?v2\<lparr>mem := sh\<rparr>) ?i item = Inr ?v'"
    using st(1) by (simp add: store_item_def)
  have r: "vec_insert al v item (Atom index) = Inr ?v'"
    unfolding vec_insert.simps using guard g p mv2 st2 by (simp add: Let_def)
  have "hdr_len v1 + 1 \<le> hdr_cap v1"
    using room s l1 by (simp add: word_le_nat_alt word_less_nat_alt)
  moreover have "length m' = length (mem v1)" using st(5) shp(1) by simp
  ultimately have w': "well_formed ?v'"
    using w1 by (simp add: well_formed_def)
  have old: "slot ?k (mem v1) j = slot ?k (mem v) j" if "j < ?n" for j
  proof -
    have "(j + 1) * unat (hdr_item_size v) \<le> ?n * unat (hdr_item_size v)"
      using that by (intro mult_le_mono1) simp
    also have "\<dots> \<le> length (mem v)"
      by (rule wf_prefix_fits(1) [OF assms(1) wf_len_le_cap [OF assms(1)]])
    finally have "(j + 1) * ?k \<le> length (mem v)" using assms(2) by simp
    then show ?thesis unfolding m1 by (rule slot_of_prefix)
  qed
  have before: "slot ?k m' j = slot ?k (mem v) j" if "j < ?i" for j
  proof -
    have "slot ?k m' j = slot ?k sh j" by (rule st(3) [OF that])
    also have "\<dots> = slot ?k (mem v1) j" by (rule shp(2) [OF that])
    also have "\<dots> = slot ?k (mem v) j" using that i_le by (intro old) simp
    finally show ?thesis .
  qed
  have after: "slot ?k m' (j + 1) = slot ?k (mem v) j" if ij: "?i \<le> j" and jn: "j < ?n" for j
  proof -
    have "?i < j + 1" using ij by simp
    then have "slot ?k m' (j + 1) = slot ?k sh (j + 1)" by (rule st(4))
    also have "\<dots> = slot ?k (mem v1) j" by (rule shp(3) [OF ij jn])
    also have "\<dots> = slot ?k (mem v) j" by (rule old [OF jn])
    finally show ?thesis .
  qed
  have "vec_insert al v item (Atom index) = Inr ?v' \<and> well_formed ?v' \<and>
        unat (hdr_len ?v') = ?n + 1 \<and> hdr_item_size ?v' = hdr_item_size v \<and>
        slot ?k (mem ?v') ?i = item \<and>
        (\<forall>j. j < ?i \<longrightarrow> slot ?k (mem ?v') j = slot ?k (mem v) j) \<and>
        (\<forall>j. ?i \<le> j \<and> j < ?n \<longrightarrow> slot ?k (mem ?v') (j + 1) = slot ?k (mem v) j)"
    using r w' s k1 st(2) before after by simp
  then show ?thesis by blast
qed

text \<open>
  For an index written as a sum the bytes moved are not those of the items behind the
  index: \<^verbatim>\<open>vec_insert(v, 9, 1 + 0)\<close> on the items 1, 2, 3 moves eight bytes from offset 1
  to offset 8 and leaves 1, 9 and two items that are neither 2 nor 3.
\<close>

lemma vec_insert_sum_misplaced:
  "vec_insert generous three_ints [9, 0, 0, 0] (Sum (CInt 1) (CInt 0))
     = Inr \<lparr>hdr_cap = 4, hdr_len = 4, hdr_item_size = 4,
            mem = [1, 0, 0, 0, 9, 0, 0, 0, 0, 0, 0, 2, 0, 0, 0, 3]\<rparr> \<and>
   vec_insert generous three_ints [9, 0, 0, 0] (Atom (CInt 1))
     = Inr \<lparr>hdr_cap = 4, hdr_len = 4, hdr_item_size = 4,
            mem = [1, 0, 0, 0, 9, 0, 0, 0, 2, 0, 0, 0, 3, 0, 0, 0]\<rparr>"
  by (simp add: eval_defs three_ints_def)

subsection \<open>Inserting without room\<close>

text \<open>
  C4 says that \<^verbatim>\<open>vec_insert\<close> at an index from 0 to the length stores the item there.
  The code on the vector with no room, at index 0: the capacity stays 0, the length
  becomes 1, and the move and the store address bytes outside the block.
\<close>

theorem insert_without_room:
  "0 \<le> cval (CInt 0) \<and> cval (CInt 0) \<le> uint (hdr_len no_room) \<and>
   vec_insert generous no_room [10, 0, 0, 0] (Atom (CInt 0))
     = Inl (Overrun (Some \<lparr>hdr_cap = 0, hdr_len = 1, hdr_item_size = 4, mem = []\<rparr>))"
  by (simp add: eval_defs no_room_def)

section \<open>Negative arguments\<close>

lemma one_below_max: "(1 :: size_t) < - 1"
  by (simp add: word_order.not_eq_extremum [symmetric])

lemma one_below_big: "(1 :: size_t) < - 2305843009213693952"
  by (simp add: word_less_nat_alt)

text \<open>
  C10 says that \<^verbatim>\<open>vec_reserve\<close> ignores a negative size. The code with the \<^verbatim>\<open>int\<close>
  \<^verbatim>\<open>-1\<close> on the vector \<^verbatim>\<open>vec_new(4)\<close> returns: the test \<^verbatim>\<open>(size_t) size == size\<close> holds,
  \<^verbatim>\<open>size > capacity\<close> is decided on the converted value and holds as well, and the block is
  reallocated to 20 bytes, less than its header. With the \<^verbatim>\<open>long\<close> \<open>- 2 ^ 61\<close> on
  \<^verbatim>\<open>vec_new(8)\<close> the byte count wraps to the bare header and the call returns a vector
  of capacity \<open>2 ^ 64 - 2 ^ 61\<close> without a single item byte.
\<close>

theorem reserve_negative_size:
  "vec_new generous 4 = Inr one_room \<and>
   cval (CInt (- 1)) < 0 \<and> cast_roundtrip (CInt (- 1)) \<and>
   hdr_cap one_room < to_size_t (CInt (- 1)) \<and>
   unat (hdr_bytes + to_size_t (CInt (- 1)) * hdr_item_size one_room) = 20 \<and>
   vec_reserve generous one_room (Atom (CInt (- 1))) = Inl (Overrun None) \<and>
   vec_new generous 8 = Inr eight_room \<and>
   cval (CLong (- (2 ^ 61))) < 0 \<and>
   vec_reserve generous eight_room (Atom (CLong (- (2 ^ 61))))
     = Inr \<lparr>hdr_cap = 0xE000000000000000, hdr_len = 0, hdr_item_size = 8, mem = []\<rparr>"
  by (simp add: eval_defs one_room_def eight_room_def zeros4 zeros8 one_below_max one_below_big)

lemma vec_insert_negative_ignored:
  assumes "mval index = Some x" "cval x < 0"
  shows "vec_insert al v item index = Inr v"
  using assms(1) by (rule vec_insert_invalid) (use assms(2) in simp)

lemma vec_reserve_negative_not_ignored:
  assumes "hdr_cap v < to_size_t x"
  shows "vec_reserve al v (Atom x) \<noteq> Inr v"
proof
  assume r: "vec_reserve al v (Atom x) = Inr v"
  then obtain v1 where "v = v1\<lparr>hdr_cap := to_size_t x\<rparr>"
    using assms by (auto simp: vec_reserve.simps cast_roundtrip_holds split: sum.splits)
  then have "hdr_cap v = to_size_t x"
    by (metis vec.select_convs(1) vec.surjective vec.update_convs(1))
  then show False using assms by simp
qed

section \<open>A worked scenario\<close>

text \<open>
  The scenario of the specification: a vector of 4-byte items created with capacity 1
  takes five appends and ends with length 5 and capacity 8 (1, 2, 4, 8); removing index 1
  leaves four items in order; shrinking then leaves capacity 4.
\<close>

lemma scenario_appends:
  "vec_new generous 4 = Inr one_room \<and>
   vec_push_all generous one_room
     [[10, 0, 0, 0], [20, 0, 0, 0], [30, 0, 0, 0], [40, 0, 0, 0], [50, 0, 0, 0]]
     = Inr \<lparr>hdr_cap = 8, hdr_len = 5, hdr_item_size = 4,
            mem = [10, 0, 0, 0, 20, 0, 0, 0, 30, 0, 0, 0, 40, 0, 0, 0, 50, 0, 0, 0,
                   0, 0, 0, 0, 0, 0, 0, 0, 0, 0, 0, 0]\<rparr>"
  by (simp add: eval_defs one_room_def upt_rec zeros4)

lemma scenario_remove_shrink:
  "vec_remove \<lparr>hdr_cap = 8, hdr_len = 5, hdr_item_size = 4,
            mem = [10, 0, 0, 0, 20, 0, 0, 0, 30, 0, 0, 0, 40, 0, 0, 0, 50, 0, 0, 0,
                   0, 0, 0, 0, 0, 0, 0, 0, 0, 0, 0, 0]\<rparr> 1
     = Inr \<lparr>hdr_cap = 8, hdr_len = 4, hdr_item_size = 4,
            mem = [10, 0, 0, 0, 30, 0, 0, 0, 40, 0, 0, 0, 50, 0, 0, 0, 50, 0, 0, 0,
                   0, 0, 0, 0, 0, 0, 0, 0, 0, 0, 0, 0]\<rparr> \<and>
   vec_shrink generous \<lparr>hdr_cap = 8, hdr_len = 4, hdr_item_size = 4,
            mem = [10, 0, 0, 0, 30, 0, 0, 0, 40, 0, 0, 0, 50, 0, 0, 0, 50, 0, 0, 0,
                   0, 0, 0, 0, 0, 0, 0, 0, 0, 0, 0, 0]\<rparr>
     = Inr \<lparr>hdr_cap = 4, hdr_len = 4, hdr_item_size = 4,
            mem = [10, 0, 0, 0, 30, 0, 0, 0, 40, 0, 0, 0, 50, 0, 0, 0]\<rparr>"
  by (simp add: eval_defs vec_remove_def vec_shrink_def upt_rec)

end
